theory Spec2Isabelle
  imports Complex_Main "HOL-Library.Sublist"
begin

section \<open>The motion engine of main.js: data model and operations\<close>

text \<open>
  The script runs single-threaded: scroll events, frame callbacks, observer
  notifications, clicks and timers are dispatched one at a time and each handler runs
  to completion.  Every component is therefore embedded as a record of the state its
  closure holds, one function per handler of the source, and a step function over the
  events the host delivers.  JavaScript numbers are idealised as reals.
\<close>

subsection \<open>Scroll-linked ticker (\<open>initScrollLinked\<close>)\<close>

text \<open>
  \<open>tk_listening\<close>: the scroll listener \<open>onScroll\<close> is attached.
  \<open>tk_scheduled\<close>: frame callbacks queued by \<open>requestAnimationFrame\<close>.
  \<open>tk_scrollY\<close>: \<open>window.scrollY\<close>.
  \<open>tk_published\<close>: the values written to the custom property \<open>--scroll-y\<close>, oldest
  first; one entry per run of the frame callback.
  \<open>tk_transform\<close>, \<open>tk_opacity\<close>: the inline style of the hero content, \<open>None\<close> until
  first written.
\<close>

record ticker =
  tk_listening :: bool
  tk_hero :: bool
  tk_ticking :: bool
  tk_scheduled :: nat
  tk_scrollY :: real
  tk_published :: "real list"
  tk_transform :: "real option"
  tk_opacity :: "real option"

text \<open>
  \<open>Math.max(0, 1 - scrollY / (window.innerHeight * 0.8))\<close>.  The callback evaluates
  it only for \<open>scrollY < window.innerHeight\<close>; with a non-negative scroll position
  the height is then positive and the division is a real division.
\<close>

definition heroOpacity :: "real \<Rightarrow> real \<Rightarrow> real" where
  "heroOpacity y h = max 0 (1 - y / (h * 0.8))"

definition heroTranslate :: "real \<Rightarrow> real" where
  "heroTranslate y = y * 0.18"

definition initScrollLinked :: "bool \<Rightarrow> bool \<Rightarrow> real \<Rightarrow> ticker" where
  "initScrollLinked prefersReducedMotion hero y0 =
     \<lparr>tk_listening = \<not> prefersReducedMotion,
      tk_hero = (\<not> prefersReducedMotion \<and> hero),
      tk_ticking = False, tk_scheduled = 0, tk_scrollY = y0,
      tk_published = [], tk_transform = None, tk_opacity = None\<rparr>"

definition onScroll :: "ticker \<Rightarrow> ticker" where
  "onScroll s =
     (if tk_ticking s then s
      else s\<lparr>tk_ticking := True, tk_scheduled := Suc (tk_scheduled s)\<rparr>)"

text \<open>
  The callback handed to \<open>requestAnimationFrame\<close>; \<open>h\<close> is \<open>window.innerHeight\<close>
  when it runs.  The scroll position is read when the callback runs, not when it was
  scheduled.
\<close>

definition tickerFrame :: "real \<Rightarrow> ticker \<Rightarrow> ticker" where
  "tickerFrame h s =
     (let y = tk_scrollY s;
          s1 = s\<lparr>tk_published := tk_published s @ [y]\<rparr>;
          s2 = (if tk_hero s1 \<and> y < h
                then s1\<lparr>tk_transform := Some (heroTranslate y),
                        tk_opacity := Some (heroOpacity y h)\<rparr>
                else s1)
      in s2\<lparr>tk_ticking := False\<rparr>)"

datatype ticker_event = Scroll real | Frame real

fun ticker_step :: "ticker \<Rightarrow> ticker_event \<Rightarrow> ticker" where
  "ticker_step s (Scroll y) =
     (let s' = s\<lparr>tk_scrollY := y\<rparr> in if tk_listening s' then onScroll s' else s')"
| "ticker_step s (Frame h) =
     (tickerFrame h ^^ tk_scheduled s) (s\<lparr>tk_scheduled := 0\<rparr>)"

definition ticker_run :: "ticker \<Rightarrow> ticker_event list \<Rightarrow> ticker" where
  "ticker_run = foldl ticker_step"

text \<open>
  Between two frames the ticker is either idle (nothing scheduled) or armed (exactly one
  callback scheduled and the in-flight flag set).
\<close>

definition tk_idle :: "ticker \<Rightarrow> bool" where
  "tk_idle s = (tk_listening s \<and> \<not> tk_ticking s \<and> tk_scheduled s = 0)"

definition tk_armed :: "ticker \<Rightarrow> bool" where
  "tk_armed s = (tk_listening s \<and> tk_ticking s \<and> tk_scheduled s = 1)"

subsection \<open>Viewport reveal engine (\<open>initScrollReveals\<close>)\<close>

text \<open>
  Elements are identified by numbers.  What the host reports when a frame callback runs
  is a \<open>viewport\<close>: the bounding rectangle (top, bottom) of the elements that have a
  layout box, and \<open>window.innerHeight\<close>.  An element without a layout box has the
  all-zero rectangle, as \<open>getBoundingClientRect\<close> returns for it.
\<close>

type_synonym elem = nat

record viewport =
  vp_rects :: "(elem \<times> real \<times> real) list"
  vp_innerHeight :: real

definition rect_top :: "viewport \<Rightarrow> elem \<Rightarrow> real" where
  "rect_top vp el = (case map_of (vp_rects vp) el of Some (t, b) \<Rightarrow> t | None \<Rightarrow> 0)"

definition rect_bottom :: "viewport \<Rightarrow> elem \<Rightarrow> real" where
  "rect_bottom vp el = (case map_of (vp_rects vp) el of Some (t, b) \<Rightarrow> b | None \<Rightarrow> 0)"

text \<open>
  The options object handed to the \<open>IntersectionObserver\<close> constructor:
  \<open>{ threshold: 0, rootMargin: '50px 0px -60px 0px' }\<close> (top, right, bottom, left).
\<close>

datatype css_length = Px real | Percent real

record observer_options =
  threshold :: real
  margin_top :: css_length
  margin_right :: css_length
  margin_bottom :: css_length
  margin_left :: css_length

definition revealObserver_options :: observer_options where
  "revealObserver_options =
     \<lparr>threshold = 0, margin_top = Px 50, margin_right = Px 0,
      margin_bottom = Px (- 60), margin_left = Px 0\<rparr>"

text \<open>
  How the host reads a root margin: each side is added to the viewport rectangle
  (a positive value grows it, a negative one shrinks it), a percentage being taken of
  the viewport's own height for the top and bottom sides.  \<open>root_top\<close> and
  \<open>root_bottom\<close> are the vertical bounds of the rectangle targets are tested against,
  in viewport coordinates; \<open>top_expansion\<close> is how far above the viewport's top edge
  the test already reports a target.
\<close>

fun resolve_margin :: "css_length \<Rightarrow> real \<Rightarrow> real" where
  "resolve_margin (Px p) h = p"
| "resolve_margin (Percent q) h = q * h / 100"

definition top_expansion :: "observer_options \<Rightarrow> real \<Rightarrow> real" where
  "top_expansion opts h = resolve_margin (margin_top opts) h"

definition root_top :: "observer_options \<Rightarrow> real \<Rightarrow> real" where
  "root_top opts h = 0 - resolve_margin (margin_top opts) h"

definition root_bottom :: "observer_options \<Rightarrow> real \<Rightarrow> real" where
  "root_bottom opts h = h + resolve_margin (margin_bottom opts) h"

text \<open>
  The vertical part of the host's intersection test at threshold 0: the target's box
  meets or touches the rectangle between \<open>root_top\<close> and \<open>root_bottom\<close>.
\<close>

definition observer_reports :: "observer_options \<Rightarrow> viewport \<Rightarrow> elem \<Rightarrow> bool" where
  "observer_reports opts vp el =
     (root_top opts (vp_innerHeight vp) \<le> rect_bottom vp el
      \<and> rect_top vp el \<le> root_bottom opts (vp_innerHeight vp))"

text \<open>
  The state of the engine.
  \<open>rv_visible\<close>: the elements carrying the class \<open>visible\<close>.
  \<open>rv_observer\<close>: the options of \<open>revealObserver\<close>, \<open>None\<close> when no observer was
  constructed.
  \<open>rv_observed\<close>: the observer's targets.
  \<open>pending\<close>, \<open>fallbackTicking\<close>: the closure variables of the fallback.
  \<open>rv_listening\<close>: \<open>onScrollFallback\<close> is attached to the scroll event.
  \<open>rv_scheduled\<close>: runs of \<open>checkFallback\<close> queued by \<open>requestAnimationFrame\<close>.
  \<open>rv_marks\<close>: every call \<open>classList.add('visible')\<close>, by element, oldest first.
  \<open>rv_rects\<close>: every call \<open>getBoundingClientRect()\<close>, by element, oldest first.
\<close>

record reveal =
  rv_visible :: "elem set"
  rv_observer :: "observer_options option"
  rv_observed :: "elem set"
  pending :: "elem list"
  fallbackTicking :: bool
  rv_listening :: bool
  rv_scheduled :: nat
  rv_marks :: "elem list"
  rv_rects :: "elem list"

definition markVisible :: "elem \<Rightarrow> reveal \<Rightarrow> reveal" where
  "markVisible el s = s\<lparr>rv_visible := insert el (rv_visible s), rv_marks := rv_marks s @ [el]\<rparr>"

definition unobserve :: "elem \<Rightarrow> reveal \<Rightarrow> reveal" where
  "unobserve el s = s\<lparr>rv_observed := rv_observed s - {el}\<rparr>"

text \<open>\<open>xs.splice(i, 1)\<close>\<close>

definition splice1 :: "nat \<Rightarrow> 'a list \<Rightarrow> 'a list" where
  "splice1 i xs = take i xs @ drop (Suc i) xs"

text \<open>
  The observer's callback: \<open>entries.forEach\<close> over (target, isIntersecting).  It marks
  every intersecting entry it is handed and unobserves its target; it does not look at
  the class list first.
\<close>

fun revealCallback :: "reveal \<Rightarrow> (elem \<times> bool) list \<Rightarrow> reveal" where
  "revealCallback s [] = s"
| "revealCallback s ((target, isIntersecting) # entries) =
     revealCallback (if isIntersecting then unobserve target (markVisible target s) else s)
       entries"

text \<open>
  The loop of \<open>checkFallback\<close>, \<open>for (i = pending.length - 1; i >= 0; i--)\<close>:
  \<open>checkLoop vp (Suc i)\<close> is the iteration at index \<open>i\<close>.  Each iteration removes at
  most the entry at its own index, so the index stays in range.
\<close>

fun checkLoop :: "viewport \<Rightarrow> nat \<Rightarrow> reveal \<Rightarrow> reveal" where
  "checkLoop vp 0 s = s"
| "checkLoop vp (Suc i) s =
     (let el = pending s ! i in
      if el \<in> rv_visible s then checkLoop vp i (s\<lparr>pending := splice1 i (pending s)\<rparr>)
      else
        let s1 = s\<lparr>rv_rects := rv_rects s @ [el]\<rparr> in
        if rect_top vp el < vp_innerHeight vp \<and> rect_bottom vp el > 0
        then checkLoop vp i
               ((unobserve el (markVisible el s1))\<lparr>pending := splice1 i (pending s1)\<rparr>)
        else checkLoop vp i s1)"

definition checkFallback :: "viewport \<Rightarrow> reveal \<Rightarrow> reveal" where
  "checkFallback vp s =
     (let s1 = checkLoop vp (length (pending s)) s;
          s2 = s1\<lparr>fallbackTicking := False\<rparr>
      in if pending s2 = [] then s2\<lparr>rv_listening := False\<rparr> else s2)"

definition onScrollFallback :: "reveal \<Rightarrow> reveal" where
  "onScrollFallback s =
     (if \<not> fallbackTicking s
      then s\<lparr>fallbackTicking := True, rv_scheduled := Suc (rv_scheduled s)\<rparr>
      else s)"

text \<open>
  \<open>initScrollReveals\<close>: \<open>els\<close> is the result of \<open>querySelectorAll('.reveal')\<close> and
  \<open>vis0\<close> the elements that carry the class \<open>visible\<close> beforehand.
\<close>

definition initScrollReveals :: "bool \<Rightarrow> bool \<Rightarrow> elem list \<Rightarrow> elem set \<Rightarrow> reveal" where
  "initScrollReveals hasObserver prefersReducedMotion els vis0 =
     (let s0 = \<lparr>rv_visible = vis0, rv_observer = None, rv_observed = {}, pending = [],
                fallbackTicking = False, rv_listening = False, rv_scheduled = 0,
                rv_marks = [], rv_rects = []\<rparr>
      in if els = [] then s0
         else if \<not> hasObserver \<or> prefersReducedMotion
         then foldl (\<lambda>s el. markVisible el s) s0 els
         else s0\<lparr>rv_observer := Some revealObserver_options, rv_observed := set els,
                 pending := els, rv_listening := True, rv_scheduled := 1\<rparr>)"

text \<open>
  The events the host delivers to the engine: a scroll event, a frame (which runs the
  queued frame callbacks against the viewport of that moment), and a notification of the
  observer with its entries.
\<close>

datatype reveal_event = RScroll | RFrame viewport | RNotify "(elem \<times> bool) list"

fun reveal_step :: "reveal \<Rightarrow> reveal_event \<Rightarrow> reveal" where
  "reveal_step s RScroll = (if rv_listening s then onScrollFallback s else s)"
| "reveal_step s (RFrame vp) = (checkFallback vp ^^ rv_scheduled s) (s\<lparr>rv_scheduled := 0\<rparr>)"
| "reveal_step s (RNotify entries) =
     (if rv_observer s = None then s else revealCallback s entries)"

definition reveal_run :: "reveal \<Rightarrow> reveal_event list \<Rightarrow> reveal" where
  "reveal_run = foldl reveal_step"

text \<open>
  A run in which the observer only reports targets it still observes, each at most once
  per notification: the intersecting entries of every notification have distinct
  targets, all observed when the notification is delivered.
\<close>

fun current_entries :: "reveal \<Rightarrow> reveal_event list \<Rightarrow> bool" where
  "current_entries s [] = True"
| "current_entries s (RNotify entries # es) =
     (distinct (map fst (filter snd entries))
      \<and> set (map fst (filter snd entries)) \<subseteq> rv_observed s
      \<and> current_entries (reveal_step s (RNotify entries)) es)"
| "current_entries s (e # es) = current_entries (reveal_step s e) es"

text \<open>
  The invariant behind the at-most-once mark: no element was marked twice, a marked
  element is no longer observed, and it carries the class.
\<close>

definition mark_inv :: "reveal \<Rightarrow> bool" where
  "mark_inv s = (distinct (rv_marks s) \<and> set (rv_marks s) \<inter> rv_observed s = {}
                 \<and> set (rv_marks s) \<subseteq> rv_visible s)"

text \<open>
  The loop invariant of the check: the entries from index \<open>i\<close> on have been looked at
  and stay pending, being neither visible nor in the viewport.
\<close>

definition settled :: "viewport \<Rightarrow> reveal \<Rightarrow> nat \<Rightarrow> bool" where
  "settled vp s i =
     (\<forall>x\<in>set (drop i (pending s)).
        x \<notin> rv_visible s \<and> \<not> (rect_top vp x < vp_innerHeight vp \<and> rect_bottom vp x > 0))"

text \<open>The fallback's listener is gone whenever the pending list is empty.\<close>

definition torn_down :: "reveal \<Rightarrow> bool" where
  "torn_down s = (pending s = [] \<longrightarrow> \<not> rv_listening s)"

text \<open>
  Every target still pending is already visible (resolved by the observer, or visible
  beforehand); and the invariants that tie the fallback's flags together: a set
  in-flight flag means a check is queued, and a detached listener means nothing is
  pending.
\<close>

definition all_resolved :: "reveal \<Rightarrow> bool" where
  "all_resolved s = (set (pending s) \<subseteq> rv_visible s)"

definition fallback_inv :: "reveal \<Rightarrow> bool" where
  "fallback_inv s =
     ((fallbackTicking s \<longrightarrow> 0 < rv_scheduled s) \<and> (\<not> rv_listening s \<longrightarrow> pending s = []))"

text \<open>"About half the viewport height": within a quarter of the viewport height of it.\<close>

definition roughly_half_viewport :: "real \<Rightarrow> real \<Rightarrow> bool" where
  "roughly_half_viewport x h = (\<bar>x - 0.5 * h\<bar> \<le> 0.25 * h)"

subsection \<open>Page initialisation (\<open>init\<close>)\<close>

text \<open>
  \<open>init\<close> runs \<open>initScrollReveals\<close> and \<open>initScrollLinked\<close> against the same capability
  probe: \<open>hasObserver\<close> is \<open>'IntersectionObserver' in window\<close>.
\<close>

record page =
  pg_reveal :: reveal
  pg_ticker :: ticker

definition init :: "bool \<Rightarrow> bool \<Rightarrow> elem list \<Rightarrow> elem set \<Rightarrow> bool \<Rightarrow> real \<Rightarrow> page" where
  "init hasObserver prefersReducedMotion els vis0 hero y0 =
     \<lparr>pg_reveal = initScrollReveals hasObserver prefersReducedMotion els vis0,
      pg_ticker = initScrollLinked prefersReducedMotion hero y0\<rparr>"

subsection \<open>Strings\<close>

text \<open>
  A JavaScript string is held as the bytes of its UTF-8 encoding (well-formed text), so
  that a literal reads as it does in the source, \<open>indexOf('@')\<close> is a search for the
  byte \<open>0x40\<close>, and \<open>encodeURIComponent\<close> works byte by byte.
\<close>

definition newline :: string where
  "newline = [CHR 0x0A]"

text \<open>The em dash (U+2014) of the source's literals, the apostrophe and the double quote.\<close>

definition emdash :: string where
  "emdash = [CHR 0xE2, CHR 0x80, CHR 0x94]"

definition apostrophe :: string where
  "apostrophe = [CHR 0x27]"

definition dquote :: string where
  "dquote = [CHR 0x22]"

text \<open>
  What \<open>String.prototype.trim\<close> removes: the WhiteSpace and LineTerminator code points
  of ECMAScript, each as its UTF-8 bytes.  U+0009..U+000D, U+0020, U+00A0, U+1680,
  U+2000..U+200A, U+2028, U+2029, U+202F, U+205F, U+3000, U+FEFF.
\<close>

definition ws_tokens :: "string list" where
  "ws_tokens =
     [[CHR 0x09], [CHR 0x0A], [CHR 0x0B], [CHR 0x0C], [CHR 0x0D], [CHR 0x20],
      [CHR 0xC2, CHR 0xA0],
      [CHR 0xE1, CHR 0x9A, CHR 0x80],
      [CHR 0xE2, CHR 0x80, CHR 0x80], [CHR 0xE2, CHR 0x80, CHR 0x81],
      [CHR 0xE2, CHR 0x80, CHR 0x82], [CHR 0xE2, CHR 0x80, CHR 0x83],
      [CHR 0xE2, CHR 0x80, CHR 0x84], [CHR 0xE2, CHR 0x80, CHR 0x85],
      [CHR 0xE2, CHR 0x80, CHR 0x86], [CHR 0xE2, CHR 0x80, CHR 0x87],
      [CHR 0xE2, CHR 0x80, CHR 0x88], [CHR 0xE2, CHR 0x80, CHR 0x89],
      [CHR 0xE2, CHR 0x80, CHR 0x8A],
      [CHR 0xE2, CHR 0x80, CHR 0xA8], [CHR 0xE2, CHR 0x80, CHR 0xA9],
      [CHR 0xE2, CHR 0x80, CHR 0xAF],
      [CHR 0xE2, CHR 0x81, CHR 0x9F],
      [CHR 0xE3, CHR 0x80, CHR 0x80],
      [CHR 0xEF, CHR 0xBB, CHR 0xBF]]"

text \<open>Number of bytes of the white-space character a string starts with; 0 if none.\<close>

definition ws_head :: "string \<Rightarrow> nat" where
  "ws_head s = (case find (\<lambda>w. prefix w s) ws_tokens of None \<Rightarrow> 0 | Some w \<Rightarrow> length w)"

text \<open>The same for the character a string ends with.\<close>

definition ws_last :: "string \<Rightarrow> nat" where
  "ws_last s = (case find (\<lambda>w. suffix w s) ws_tokens of None \<Rightarrow> 0 | Some w \<Rightarrow> length w)"

function trimStart :: "string \<Rightarrow> string" where
  "trimStart s = (if ws_head s = 0 then s else trimStart (drop (ws_head s) s))"
  by pat_completeness auto
termination
proof (relation "measure length")
  show "wf (measure length)" by simp
next
  fix s :: string
  assume a: "ws_head s \<noteq> 0"
  then obtain w where w: "find (\<lambda>w. prefix w s) ws_tokens = Some w" "w \<noteq> []"
    by (auto simp: ws_head_def split: option.splits)
  then have "prefix w s" by (auto simp: find_Some_iff)
  with w(2) have "s \<noteq> []" by auto
  with a show "(drop (ws_head s) s, s) \<in> measure length" by simp
qed

function trimEnd :: "string \<Rightarrow> string" where
  "trimEnd s = (if ws_last s = 0 then s else trimEnd (take (length s - ws_last s) s))"
  by pat_completeness auto
termination
proof (relation "measure length")
  show "wf (measure length)" by simp
next
  fix s :: string
  assume a: "ws_last s \<noteq> 0"
  then obtain w where w: "find (\<lambda>w. suffix w s) ws_tokens = Some w" "w \<noteq> []"
    by (auto simp: ws_last_def split: option.splits)
  then have "suffix w s" by (auto simp: find_Some_iff)
  with w(2) have "s \<noteq> []" by (auto simp: suffix_def)
  with a show "(take (length s - ws_last s) s, s) \<in> measure length" by simp
qed

declare trimStart.simps [simp del] trimEnd.simps [simp del]

definition trim :: "string \<Rightarrow> string" where
  "trim s = trimEnd (trimStart s)"

text \<open>
  \<open>encodeURIComponent\<close>: the unreserved characters stay, every other byte becomes
  \<open>%XX\<close> in upper-case hexadecimal.
\<close>

definition unreserved :: "char \<Rightarrow> bool" where
  "unreserved c =
     (c \<in> set ''ABCDEFGHIJKLMNOPQRSTUVWXYZabcdefghijklmnopqrstuvwxyz0123456789-_.!~*()''
      \<or> c = CHR 0x27)"

definition hexdigit :: "nat \<Rightarrow> char" where
  "hexdigit n = ''0123456789ABCDEF'' ! (n mod 16)"

definition percent :: "char \<Rightarrow> string" where
  "percent c = [CHR ''%'', hexdigit (of_char c div 16), hexdigit (of_char c mod 16)]"

definition encodeURIComponent :: "string \<Rightarrow> string" where
  "encodeURIComponent s = concat (map (\<lambda>c. if unreserved c then [c] else percent c) s)"

text \<open>The lines of a text: the pieces between line feeds.\<close>

fun lines_of :: "string \<Rightarrow> string list" where
  "lines_of [] = [[]]"
| "lines_of (c # cs) =
     (if c = CHR 0x0A then [] # lines_of cs
      else (case lines_of cs of l # ls \<Rightarrow> (c # l) # ls | [] \<Rightarrow> [[c]]))"

subsection \<open>Conversational form (\<open>initConvoForm\<close>)\<close>

text \<open>
  The elements the script looks up (start button, form, chat, the three steps, the work
  select, the detail fields, the send button) exist, as on the page it is written for.
  The chat container holds bubbles and, while a delay runs, typing indicators; the
  transcript is its bubbles in order.
\<close>

datatype actor = Bot | User

datatype node = Bubble actor string | Typing nat

datatype step_el = Step1 | Step2 | Step3

datatype field = WorkSelect | NameInput | EmailInput | NoteInput

record answers =
  a_work :: string
  a_source :: string
  a_name :: string
  a_email :: string
  a_note :: string

text \<open>
  What runs when a timer fires: the \<open>then\<close> callbacks of the four \<open>showTyping\<close> calls
  (the last one closes over \<open>mailtoLink\<close>) and the deferred focus of the name field.
\<close>

datatype continuation = AfterStart | AfterWork | AfterSource | AfterSend string | FocusName

text \<open>
  \<open>cf_formActive\<close>: \<open>convoForm\<close> has the class \<open>active\<close>.
  \<open>cf_startAccent\<close>: the start button's colour was set.
  \<open>cf_active\<close>: the step element carrying the class \<open>active\<close> (\<open>showStep\<close> leaves at
  most one).
  \<open>cf_hidden\<close>: the steps have the inline style \<open>display: none\<close>.
  \<open>cf_chat\<close>: the children of \<open>convoChat\<close>.
  \<open>cf_timers\<close>: pending timers as (id, delay in ms, continuation); a typing indicator
  carries the id of its timer.
  \<open>cf_focus\<close>: the field last focused by the script; \<open>cf_flagged\<close>: the fields whose
  border colour was set to the invalid marker.
  \<open>cf_panels\<close>: success panels appended to \<open>convoForm\<close>, as their HTML.
  \<open>cf_location\<close>: the values assigned to \<open>window.location.href\<close>, oldest first.
\<close>

record convo =
  cf_formActive :: bool
  cf_startAccent :: bool
  cf_active :: "step_el option"
  cf_hidden :: bool
  answers :: answers
  cf_chat :: "node list"
  cf_timers :: "(nat \<times> nat \<times> continuation) list"
  cf_nextId :: nat
  cf_focus :: "field option"
  cf_flagged :: "field set"
  cf_panels :: "string list"
  cf_location :: "string list"

definition initConvoForm :: convo where
  "initConvoForm =
     \<lparr>cf_formActive = False, cf_startAccent = False, cf_active = None, cf_hidden = False,
      answers = \<lparr>a_work = [], a_source = [], a_name = [], a_email = [], a_note = []\<rparr>,
      cf_chat = [], cf_timers = [], cf_nextId = 0, cf_focus = None, cf_flagged = {},
      cf_panels = [], cf_location = []\<rparr>"

definition addBubble :: "string \<Rightarrow> actor \<Rightarrow> convo \<Rightarrow> convo" where
  "addBubble text type s = s\<lparr>cf_chat := cf_chat s @ [Bubble type text]\<rparr>"

definition setTimeout :: "nat \<Rightarrow> continuation \<Rightarrow> convo \<Rightarrow> convo" where
  "setTimeout delay k s =
     s\<lparr>cf_timers := cf_timers s @ [(cf_nextId s, delay, k)], cf_nextId := Suc (cf_nextId s)\<rparr>"

text \<open>\<open>showTyping(delay).then(k)\<close>: append the indicator and start its timer.\<close>

definition showTyping :: "nat \<Rightarrow> continuation \<Rightarrow> convo \<Rightarrow> convo" where
  "showTyping delay k s =
     setTimeout delay k (s\<lparr>cf_chat := cf_chat s @ [Typing (cf_nextId s)]\<rparr>)"

definition showStep :: "step_el option \<Rightarrow> convo \<Rightarrow> convo" where
  "showStep stepEl s = s\<lparr>cf_active := stepEl\<rparr>"

definition flag :: "field \<Rightarrow> convo \<Rightarrow> convo" where
  "flag f s = s\<lparr>cf_focus := Some f, cf_flagged := insert f (cf_flagged s)\<rparr>"

text \<open>The message: the texts handed to \<open>encodeURIComponent\<close>, and the link.\<close>

definition compose_subject :: "answers \<Rightarrow> string" where
  "compose_subject a = ''New inquiry from '' @ a_name a @ '' '' @ emdash @ '' '' @ a_work a"

definition compose_body :: "answers \<Rightarrow> string" where
  "compose_body a =
     ''Hi Azlan,'' @ newline @ newline @
     ''Name: '' @ a_name a @ newline @
     ''Email: '' @ a_email a @ newline @
     ''Looking for: '' @ a_work a @ newline @
     ''Found you via: '' @ a_source a @ newline @
     (if a_note a \<noteq> [] then ''Note: '' @ a_note a @ newline else []) @
     newline @ ''Sent from your portfolio site.''"

definition recipient :: string where
  "recipient = ''azlanallahwala@gmail.com''"

definition mailtoLink :: "answers \<Rightarrow> string" where
  "mailtoLink a =
     ''mailto:'' @ recipient @ ''?subject='' @ encodeURIComponent (compose_subject a)
       @ ''&body='' @ encodeURIComponent (compose_body a)"

definition successHTML :: "string \<Rightarrow> string" where
  "successHTML link =
     ''<div class='' @ dquote @ ''convo-success'' @ dquote @ ''>'' @
     ''<span class='' @ dquote @ ''convo-success__icon'' @ dquote @ ''>&#10003;</span>'' @
     ''<p class='' @ dquote @ ''convo-success__text'' @ dquote @
     ''>Opening your email client now.<br>If it doesn'' @ apostrophe @
     ''t open, <a href='' @ dquote @ link @ dquote @ '' style='' @ dquote @
     ''color: var(--accent); text-decoration: underline;'' @ dquote @
     ''>click here</a>.</p>'' @
     ''</div>''"

text \<open>The click handlers, in the order of the source.\<close>

definition startBtn_click :: "convo \<Rightarrow> convo" where
  "startBtn_click s =
     showTyping 600 AfterStart (s\<lparr>cf_formActive := True, cf_startAccent := True\<rparr>)"

definition step1Next_click :: "string \<Rightarrow> convo \<Rightarrow> convo" where
  "step1Next_click workValue s =
     (if workValue = [] then flag WorkSelect s
      else
        let s1 = s\<lparr>answers := (answers s)\<lparr>a_work := workValue\<rparr>\<rparr>;
            s2 = addBubble (a_work (answers s1)) User s1;
            s3 = showStep None s2
        in showTyping 500 AfterWork s3)"

definition pill_click :: "string \<Rightarrow> convo \<Rightarrow> convo" where
  "pill_click pillValue s =
     (let s1 = s\<lparr>answers := (answers s)\<lparr>a_source := pillValue\<rparr>\<rparr>;
          s2 = addBubble (a_source (answers s1)) User s1;
          s3 = showStep None s2
      in showTyping 500 AfterSource s3)"

definition sendBtn_click :: "string \<Rightarrow> string \<Rightarrow> string \<Rightarrow> convo \<Rightarrow> convo" where
  "sendBtn_click nameValue emailValue noteValue s =
     (let name = trim nameValue; email = trim emailValue; note = trim noteValue in
      if name = [] then flag NameInput s
      else if email = [] \<or> CHR ''@'' \<notin> set email then flag EmailInput s
      else
        let s1 = s\<lparr>answers := (answers s)\<lparr>a_name := name, a_email := email, a_note := note\<rparr>\<rparr>;
            link = mailtoLink (answers s1);
            s2 = showStep None s1;
            s3 = addBubble (name @ '' '' @ emdash @ '' '' @ email) User s2
        in showTyping 400 (AfterSend link) s3)"

text \<open>
  A timer fires: its typing indicator, if any, is removed and its callback runs.  The
  three texts are the bot's turns.
\<close>

definition question_work :: string where
  "question_work = ''Hey! What kind of work are you looking for?''"

definition question_source :: string where
  "question_source = ''Nice. How did you find me?''"

definition prompt_details :: string where
  "prompt_details =
     ''Almost there '' @ emdash @ '' drop your details and I'' @ apostrophe
       @ ''ll be in touch.''"

fun resume :: "continuation \<Rightarrow> convo \<Rightarrow> convo" where
  "resume AfterStart s = showStep (Some Step1) (addBubble question_work Bot s)"
| "resume AfterWork s = showStep (Some Step2) (addBubble question_source Bot s)"
| "resume AfterSource s =
     setTimeout 100 FocusName (showStep (Some Step3) (addBubble prompt_details Bot s))"
| "resume (AfterSend link) s =
     s\<lparr>cf_hidden := True, cf_panels := cf_panels s @ [successHTML link],
       cf_location := cf_location s @ [link]\<rparr>"
| "resume FocusName s = s\<lparr>cf_focus := Some NameInput\<rparr>"

definition fire :: "nat \<Rightarrow> convo \<Rightarrow> convo" where
  "fire tid s =
     (case find (\<lambda>t. fst t = tid) (cf_timers s) of
        None \<Rightarrow> s
      | Some (i, delay, k) \<Rightarrow>
          resume k (s\<lparr>cf_timers := filter (\<lambda>t. fst t \<noteq> tid) (cf_timers s),
                      cf_chat := filter (\<lambda>n. n \<noteq> Typing tid) (cf_chat s)\<rparr>))"

text \<open>
  Modelled from the spec: the stylesheet and the markup are not under src/.  A step's
  controls take user input only while the step is shown: it carries the class \<open>active\<close>
  and has not been hidden by the inline style (the spec: hidden elements are removed
  from interaction).  The start button is always shown.  \<open>pills\<close> are the values
  \<open>data-value\<close> of the source pills of the markup.
\<close>

definition usable :: "step_el \<Rightarrow> convo \<Rightarrow> bool" where
  "usable st s = (cf_active s = Some st \<and> \<not> cf_hidden s)"

text \<open>
  User input and timers.  A click carries the values of the controls it reads; a key
  press in a detail field carries the key, the shift state and the three field values.
\<close>

datatype convo_event =
    ClickStart
  | ClickStep1Next string
  | ClickPill string
  | ClickSend string string string
  | KeyDown string bool string string string
  | Timeout nat

fun convo_step :: "string list \<Rightarrow> convo \<Rightarrow> convo_event \<Rightarrow> convo" where
  "convo_step pills s ClickStart = startBtn_click s"
| "convo_step pills s (ClickStep1Next v) = (if usable Step1 s then step1Next_click v s else s)"
| "convo_step pills s (ClickPill v) =
     (if usable Step2 s \<and> v \<in> set pills then pill_click v s else s)"
| "convo_step pills s (ClickSend n e t) = (if usable Step3 s then sendBtn_click n e t s else s)"
| "convo_step pills s (KeyDown key shiftKey n e t) =
     (if usable Step3 s \<and> key = ''Enter'' \<and> \<not> shiftKey then sendBtn_click n e t s else s)"
| "convo_step pills s (Timeout tid) = fire tid s"

definition convo_run :: "string list \<Rightarrow> convo \<Rightarrow> convo_event list \<Rightarrow> convo" where
  "convo_run pills = foldl (convo_step pills)"

definition transcript :: "convo \<Rightarrow> (actor \<times> string) list" where
  "transcript s = concat (map (\<lambda>n. case n of Bubble a t \<Rightarrow> [(a, t)] | Typing i \<Rightarrow> []) (cf_chat s))"

fun alternating :: "actor list \<Rightarrow> bool" where
  "alternating (a # b # rest) = (a \<noteq> b \<and> alternating (b # rest))"
| "alternating rest = True"

text \<open>
  The session has passed the Details step: a submission was accepted (its closing timer
  is pending) or the message was handed over.
\<close>

fun is_send :: "continuation \<Rightarrow> bool" where
  "is_send (AfterSend link) = True"
| "is_send k = False"

definition succeeded :: "convo \<Rightarrow> bool" where
  "succeeded s = (cf_location s \<noteq> [] \<or> cf_panels s \<noteq> []
                  \<or> list_ex (\<lambda>t. is_send (snd (snd t))) (cf_timers s))"





text \<open>
  Two states of the form that differ at most in the focused field and the invalid
  markers: step, answers, chat, timers and everything handed over are the same.
\<close>

definition same_session :: "convo \<Rightarrow> convo \<Rightarrow> bool" where
  "same_session s r =
     (cf_formActive r = cf_formActive s \<and> cf_startAccent r = cf_startAccent s
      \<and> cf_active r = cf_active s \<and> cf_hidden r = cf_hidden s \<and> answers r = answers s
      \<and> cf_chat r = cf_chat s \<and> cf_timers r = cf_timers s \<and> cf_nextId r = cf_nextId s
      \<and> cf_panels r = cf_panels s \<and> cf_location r = cf_location s)"

section \<open>Verified properties\<close>

subsection \<open>Ticker\<close>

lemma ticker_run_Nil [simp]: "ticker_run s [] = s"
  by (simp add: ticker_run_def)

lemma ticker_run_Cons [simp]: "ticker_run s (e # es) = ticker_run (ticker_step s e) es"
  by (simp add: ticker_run_def)

lemma ticker_run_append [simp]:
  "ticker_run s (es @ es') = ticker_run (ticker_run s es) es'"
  by (simp add: ticker_run_def)

lemma scroll_armed:
  "tk_armed s \<Longrightarrow> ticker_run s (map Scroll ps) = s\<lparr>tk_scrollY := last (tk_scrollY s # ps)\<rparr>"
proof (induction ps arbitrary: s)
  case Nil
  then show ?case by simp
next
  case (Cons p ps)
  have step: "ticker_step s (Scroll p) = s\<lparr>tk_scrollY := p\<rparr>"
    using Cons.prems by (simp add: tk_armed_def onScroll_def)
  have "tk_armed (s\<lparr>tk_scrollY := p\<rparr>)"
    using Cons.prems by (simp add: tk_armed_def)
  from Cons.IH[OF this] show ?case
    by (simp add: step del: ticker_step.simps)
qed

lemma scroll_idle:
  assumes "tk_idle s" "ps \<noteq> []"
  shows "ticker_run s (map Scroll ps) =
         s\<lparr>tk_scrollY := last ps, tk_ticking := True, tk_scheduled := 1\<rparr>"
proof -
  obtain p qs where ps: "ps = p # qs" using assms(2) by (cases ps) auto
  have step: "ticker_step s (Scroll p) = s\<lparr>tk_scrollY := p, tk_ticking := True, tk_scheduled := 1\<rparr>"
    using assms(1) by (simp add: tk_idle_def onScroll_def)
  have "tk_armed (s\<lparr>tk_scrollY := p, tk_ticking := True, tk_scheduled := 1\<rparr>)"
    using assms(1) by (simp add: tk_idle_def tk_armed_def)
  from scroll_armed[OF this, of qs] show ?thesis
    by (simp add: ps step del: ticker_step.simps)
qed

lemma tickerFrame_fields [simp]:
  "tk_listening (tickerFrame h s) = tk_listening s"
  "tk_hero (tickerFrame h s) = tk_hero s"
  "tk_ticking (tickerFrame h s) = False"
  "tk_scheduled (tickerFrame h s) = tk_scheduled s"
  "tk_scrollY (tickerFrame h s) = tk_scrollY s"
  "tk_published (tickerFrame h s) = tk_published s @ [tk_scrollY s]"
  by (simp_all add: tickerFrame_def Let_def)

lemma reach_inv:
  "tk_idle s \<or> tk_armed s \<Longrightarrow> tk_idle (ticker_step s e) \<or> tk_armed (ticker_step s e)"
  by (cases e) (auto simp: tk_idle_def tk_armed_def onScroll_def Let_def)

lemma reach_inv_run:
  "tk_idle s \<or> tk_armed s \<Longrightarrow> tk_idle (ticker_run s es) \<or> tk_armed (ticker_run s es)"
  by (induction es arbitrary: s) (simp_all add: reach_inv)

lemma frame_idle:
  "tk_idle s \<or> tk_armed s \<Longrightarrow> tk_idle (ticker_step s (Frame h))"
  by (auto simp: tk_idle_def tk_armed_def)

lemma init_idle: "tk_idle (initScrollLinked False hero y0)"
  by (simp add: tk_idle_def initScrollLinked_def)

lemma boundary_idle:
  assumes "hist = [] \<or> (\<exists>es h0. hist = es @ [Frame h0])"
  shows "tk_idle (ticker_run (initScrollLinked False hero y0) hist)"
  using assms
proof
  assume "hist = []" then show ?thesis by (simp add: init_idle)
next
  assume "\<exists>es h0. hist = es @ [Frame h0]"
  then obtain es h0 where h: "hist = es @ [Frame h0]" by blast
  have "tk_idle (ticker_run (initScrollLinked False hero y0) es) \<or> tk_armed (ticker_run (initScrollLinked False hero y0) es)"
    by (rule reach_inv_run) (simp add: init_idle)
  from frame_idle[OF this] show ?thesis by (simp add: h)
qed

text \<open>
  Claim C2.  Starting at a frame boundary of an installed ticker (right after
  initialisation, or right after a frame), any burst of N \<ge> 1 scroll events followed
  by the frame runs the computation exactly once: the list of published values grows by
  exactly one entry, the position of the last event of the burst, and the ticker is idle
  again afterwards.
\<close>

theorem frame_coalescing:
  assumes "ps \<noteq> []"
    and "hist = [] \<or> (\<exists>es h0. hist = es @ [Frame h0])"
  shows "tk_published (ticker_run (initScrollLinked False hero y0) (hist @ map Scroll ps @ [Frame h]))
           = tk_published (ticker_run (initScrollLinked False hero y0) hist) @ [last ps]
         \<and> tk_idle (ticker_run (initScrollLinked False hero y0) (hist @ map Scroll ps @ [Frame h]))"
proof -
  let ?s = "ticker_run (initScrollLinked False hero y0) hist"
  have idle: "tk_idle ?s" by (rule boundary_idle[OF assms(2)])
  have "ticker_run ?s (map Scroll ps) = ?s\<lparr>tk_scrollY := last ps, tk_ticking := True, tk_scheduled := 1\<rparr>"
    by (rule scroll_idle[OF idle assms(1)])
  then show ?thesis using idle
    by (simp add: tk_idle_def)
qed

theorem frame_coalescing_witness:
  "tk_published (ticker_run (initScrollLinked False True 0) ([Scroll 5, Frame 800] @ map Scroll [10, 20, 30] @ [Frame 800]))
    = [5, 30]"
  using frame_coalescing[of "[10, 20, 30]" "[Scroll 5, Frame 800]" True 0 800]
  by (simp add: initScrollLinked_def onScroll_def tickerFrame_def Let_def)

text \<open>
  Claim C4.  For offsets in the hero's active range (non-negative and below the viewport
  height), the opacity is 1 at offset 0, lies in [0, 1], is strictly decreasing up to
  0.8 times the viewport height, is 0 from there on, is never negative, and is the
  value the frame callback writes to the hero's style.
\<close>

theorem hero_opacity_boundary:
  assumes "0 \<le> y1" and "y1 < y2" and "y2 < h"
  shows "heroOpacity 0 h = 1
       \<and> 0 \<le> heroOpacity y1 h \<and> heroOpacity y1 h \<le> 1
       \<and> 0 \<le> heroOpacity y2 h \<and> heroOpacity y2 h \<le> 1
       \<and> (y2 \<le> 0.8 * h \<longrightarrow> heroOpacity y2 h < heroOpacity y1 h)
       \<and> (0.8 * h \<le> y \<longrightarrow> heroOpacity y h = 0)
       \<and> 0 \<le> heroOpacity y h
       \<and> tk_opacity (tickerFrame h (s\<lparr>tk_hero := True, tk_scrollY := y1\<rparr>)) = Some (heroOpacity y1 h)"
proof -
  have h: "0 < h" using assms by simp
  have d: "0 < h * 0.8" using h by simp
  have a: "heroOpacity 0 h = 1" by (simp add: heroOpacity_def)
  have q1: "0 \<le> y1 / (h * 0.8)" using assms(1) d by simp
  have q2: "0 \<le> y2 / (h * 0.8)" using assms d by simp
  have b1: "0 \<le> heroOpacity y1 h \<and> heroOpacity y1 h \<le> 1" using q1 by (simp add: heroOpacity_def)
  have b2: "0 \<le> heroOpacity y2 h \<and> heroOpacity y2 h \<le> 1" using q2 by (simp add: heroOpacity_def)
  have lt: "y1 / (h * 0.8) < y2 / (h * 0.8)" using assms(2) d by (simp add: divide_strict_right_mono)
  have c: "y2 \<le> 0.8 * h \<longrightarrow> heroOpacity y2 h < heroOpacity y1 h"
  proof
    assume "y2 \<le> 0.8 * h"
    then have "y2 / (h * 0.8) \<le> 1" using d by (simp add: mult.commute)
    then show "heroOpacity y2 h < heroOpacity y1 h" using lt by (simp add: heroOpacity_def)
  qed
  have e: "0.8 * h \<le> y \<longrightarrow> heroOpacity y h = 0"
  proof
    assume "0.8 * h \<le> y"
    then have "1 \<le> y / (h * 0.8)" using d by (simp add: mult.commute)
    then show "heroOpacity y h = 0" by (simp add: heroOpacity_def)
  qed
  have f: "0 \<le> heroOpacity y h" by (simp add: heroOpacity_def)
  have g: "tk_opacity (tickerFrame h (s\<lparr>tk_hero := True, tk_scrollY := y1\<rparr>)) = Some (heroOpacity y1 h)"
    using assms by (simp add: tickerFrame_def Let_def)
  show ?thesis using a b1 b2 c e f g by blast
qed

theorem hero_opacity_boundary_witness:
  "heroOpacity 0 1000 = 1 \<and> heroOpacity 400 1000 = 1/2 \<and> heroOpacity 800 1000 = 0
   \<and> heroOpacity 900 1000 = 0 \<and> heroOpacity 400 1000 < heroOpacity 200 1000"
  using hero_opacity_boundary[of 200 400 1000 900]
  by (simp add: heroOpacity_def)

subsection \<open>Reveal engine\<close>

lemma reveal_run_Nil [simp]: "reveal_run s [] = s"
  by (simp add: reveal_run_def)

lemma reveal_run_Cons [simp]: "reveal_run s (e # es) = reveal_run (reveal_step s e) es"
  by (simp add: reveal_run_def)

lemma reveal_run_append [simp]:
  "reveal_run s (es @ es') = reveal_run (reveal_run s es) es'"
  by (simp add: reveal_run_def)


lemma checkLoop_mark_inv: "mark_inv s \<Longrightarrow> mark_inv (checkLoop vp i s)"
proof (induction i arbitrary: s)
  case 0
  then show ?case by simp
next
  case (Suc i)
  let ?el = "pending s ! i"
  show ?case
  proof (cases "?el \<in> rv_visible s")
    case True
    have "mark_inv (s\<lparr>pending := splice1 i (pending s)\<rparr>)"
      using Suc.prems by (simp add: mark_inv_def)
    from Suc.IH[OF this] show ?thesis using True by simp
  next
    case False
    let ?s1 = "s\<lparr>rv_rects := rv_rects s @ [?el]\<rparr>"
    have a: "mark_inv ?s1" using Suc.prems by (simp add: mark_inv_def)
    have b: "mark_inv ((unobserve ?el (markVisible ?el ?s1))\<lparr>pending := splice1 i (pending ?s1)\<rparr>)"
      using Suc.prems False by (auto simp: mark_inv_def unobserve_def markVisible_def)
    show ?thesis using False Suc.IH[OF a] Suc.IH[OF b] by (simp add: Let_def)
  qed
qed

lemma checkFallback_mark_inv: "mark_inv s \<Longrightarrow> mark_inv (checkFallback vp s)"
proof -
  assume "mark_inv s"
  then have "mark_inv (checkLoop vp (length (pending s)) s)" by (rule checkLoop_mark_inv)
  then show ?thesis by (simp add: checkFallback_def Let_def mark_inv_def)
qed

lemma funpow_mark_inv: "mark_inv s \<Longrightarrow> mark_inv ((checkFallback vp ^^ n) s)"
  by (induction n) (simp_all add: checkFallback_mark_inv)

lemma revealCallback_mark_inv:
  "mark_inv s \<Longrightarrow> distinct (map fst (filter snd entries))
   \<Longrightarrow> set (map fst (filter snd entries)) \<subseteq> rv_observed s
   \<Longrightarrow> mark_inv (revealCallback s entries)"
proof (induction entries arbitrary: s)
  case Nil
  then show ?case by simp
next
  case (Cons e entries)
  obtain t b where e: "e = (t, b)" by (cases e)
  show ?case
  proof (cases b)
    case False
    then show ?thesis using Cons e by simp
  next
    case True
    let ?s' = "unobserve t (markVisible t s)"
    have tobs: "t \<in> rv_observed s" using Cons.prems True e by simp
    have a: "mark_inv ?s'" using Cons.prems(1) tobs
      by (auto simp: mark_inv_def unobserve_def markVisible_def)
    have b: "distinct (map fst (filter snd entries))" using Cons.prems(2) True e by simp
    have c: "set (map fst (filter snd entries)) \<subseteq> rv_observed ?s'"
      using Cons.prems(2,3) True e by (auto simp: unobserve_def markVisible_def)
    from Cons.IH[OF a b c] show ?thesis using True e by simp
  qed
qed

lemma step_mark_inv:
  "mark_inv s \<Longrightarrow> current_entries s [e] \<Longrightarrow> mark_inv (reveal_step s e)"
proof (cases e)
  case RScroll
  assume "mark_inv s"
  then show ?thesis using RScroll by (simp add: onScrollFallback_def mark_inv_def)
next
  case (RFrame vp)
  assume "mark_inv s"
  then have "mark_inv (s\<lparr>rv_scheduled := 0\<rparr>)" by (simp add: mark_inv_def)
  then show ?thesis using RFrame by (simp add: funpow_mark_inv)
next
  case (RNotify entries)
  assume "mark_inv s" "current_entries s [e]"
  then show ?thesis using RNotify by (simp add: revealCallback_mark_inv)
qed

lemma run_mark_inv:
  "mark_inv s \<Longrightarrow> current_entries s es \<Longrightarrow> mark_inv (reveal_run s es)"
proof (induction es arbitrary: s)
  case Nil
  then show ?case by simp
next
  case (Cons e es)
  have c1: "current_entries s [e]" using Cons.prems(2) by (cases e) simp_all
  have c2: "current_entries (reveal_step s e) es" using Cons.prems(2) by (cases e) simp_all
  from Cons.IH[OF step_mark_inv[OF Cons.prems(1) c1] c2] show ?case by simp
qed

text \<open>No handler removes the class: the visible set only grows.\<close>

lemma checkLoop_visible: "rv_visible s \<subseteq> rv_visible (checkLoop vp i s)"
proof (induction i arbitrary: s)
  case 0
  then show ?case by simp
next
  case (Suc i)
  let ?el = "pending s ! i"
  let ?s1 = "s\<lparr>rv_rects := rv_rects s @ [?el]\<rparr>"
  have a: "rv_visible s \<subseteq> rv_visible (checkLoop vp i (s\<lparr>pending := splice1 i (pending s)\<rparr>))"
    using Suc.IH[of "s\<lparr>pending := splice1 i (pending s)\<rparr>"] by simp
  have b: "rv_visible s \<subseteq> rv_visible (checkLoop vp i ?s1)"
    using Suc.IH[of ?s1] by simp
  have c: "rv_visible s \<subseteq> rv_visible (checkLoop vp i ((unobserve ?el (markVisible ?el ?s1))\<lparr>pending := splice1 i (pending ?s1)\<rparr>))"
    using Suc.IH[of "(unobserve ?el (markVisible ?el ?s1))\<lparr>pending := splice1 i (pending ?s1)\<rparr>"]
    by (auto simp: unobserve_def markVisible_def)
  show ?case using a b c by (simp add: Let_def)
qed

lemma checkFallback_visible: "rv_visible s \<subseteq> rv_visible (checkFallback vp s)"
  using checkLoop_visible[where s = s and vp = vp and i = "length (pending s)"]
  by (simp add: checkFallback_def Let_def)

lemma funpow_visible: "rv_visible s \<subseteq> rv_visible ((checkFallback vp ^^ n) s)"
proof (induction n)
  case 0
  then show ?case by simp
next
  case (Suc n)
  then show ?case using checkFallback_visible[where s = "(checkFallback vp ^^ n) s" and vp = vp] by auto
qed

lemma revealCallback_visible: "rv_visible s \<subseteq> rv_visible (revealCallback s entries)"
proof (induction entries arbitrary: s)
  case Nil
  then show ?case by simp
next
  case (Cons e entries)
  obtain t b where e: "e = (t, b)" by (cases e)
  show ?case
    using Cons.IH[of s] Cons.IH[of "unobserve t (markVisible t s)"] e
    by (auto simp: unobserve_def markVisible_def)
qed

lemma step_visible: "rv_visible s \<subseteq> rv_visible (reveal_step s e)"
proof (cases e)
  case RScroll
  then show ?thesis by (simp add: onScrollFallback_def)
next
  case (RFrame vp)
  then show ?thesis using funpow_visible[where s = "s\<lparr>rv_scheduled := 0\<rparr>" and vp = vp and n = "rv_scheduled s"] by simp
next
  case (RNotify entries)
  then show ?thesis using revealCallback_visible[of s entries] by simp
qed

lemma run_visible: "rv_visible s \<subseteq> rv_visible (reveal_run s es)"
proof (induction es arbitrary: s)
  case Nil
  then show ?case by simp
next
  case (Cons e es)
  show ?case using step_visible[of s e] Cons.IH[of "reveal_step s e"] by auto
qed

text \<open>Splicing, and what a check leaves in the pending list.\<close>

lemma drop_splice1: "i < length xs \<Longrightarrow> drop i (splice1 i xs) = drop (Suc i) xs"
  by (simp add: splice1_def)

lemma set_splice1: "set (splice1 i xs) \<subseteq> set xs"
  unfolding splice1_def using set_take_subset[of i xs] set_drop_subset[of "Suc i" xs] by auto

lemma length_splice1: "i < length xs \<Longrightarrow> length (splice1 i xs) = length xs - 1"
  by (simp add: splice1_def)

lemma checkLoop_settled:
  "i \<le> length (pending s) \<Longrightarrow> settled vp s i \<Longrightarrow> settled vp (checkLoop vp i s) 0"
proof (induction i arbitrary: s)
  case 0
  then show ?case by simp
next
  case (Suc i)
  let ?p = "pending s"
  let ?el = "?p ! i"
  have lt: "i < length ?p" using Suc.prems(1) by simp
  have dr: "drop i (splice1 i ?p) = drop (Suc i) ?p" using lt by (rule drop_splice1)
  have le: "i \<le> length (splice1 i ?p)" using lt by (simp add: length_splice1)
  show ?case
  proof (cases "?el \<in> rv_visible s")
    case True
    let ?s' = "s\<lparr>pending := splice1 i ?p\<rparr>"
    have "settled vp ?s' i" using Suc.prems(2) dr by (simp add: settled_def)
    moreover have "i \<le> length (pending ?s')" using le by simp
    ultimately have "settled vp (checkLoop vp i ?s') 0" using Suc.IH by blast
    then show ?thesis using True by simp
  next
    case False
    let ?s1 = "s\<lparr>rv_rects := rv_rects s @ [?el]\<rparr>"
    let ?s2 = "(unobserve ?el (markVisible ?el ?s1))\<lparr>pending := splice1 i (pending ?s1)\<rparr>"
    let ?C = "rect_top vp ?el < vp_innerHeight vp \<and> rect_bottom vp ?el > 0"
    have unf: "checkLoop vp (Suc i) s = (if ?C then checkLoop vp i ?s2 else checkLoop vp i ?s1)"
      using False by (simp add: Let_def)
    show ?thesis
    proof (cases ?C)
      case inview: True
      have "\<forall>x\<in>set (drop (Suc i) ?p). x \<noteq> ?el"
        using Suc.prems(2) inview unfolding settled_def by blast
      then have "settled vp ?s2 i"
        using Suc.prems(2) dr by (auto simp: settled_def unobserve_def markVisible_def)
      moreover have "i \<le> length (pending ?s2)" using le by simp
      ultimately have "settled vp (checkLoop vp i ?s2) 0" using Suc.IH by blast
      then show ?thesis unfolding unf using inview by simp
    next
      case out: False
      have "drop i ?p = ?el # drop (Suc i) ?p" using lt by (simp add: Cons_nth_drop_Suc)
      then have "settled vp ?s1 i"
        using Suc.prems(2) False out by (auto simp: settled_def)
      moreover have "i \<le> length (pending ?s1)" using lt by simp
      ultimately have "settled vp (checkLoop vp i ?s1) 0" using Suc.IH by blast
      then show ?thesis unfolding unf using out by (simp only: if_False)
    qed
  qed
qed

lemma checkFallback_purges:
  "set (pending (checkFallback vp s)) \<inter> rv_visible (checkFallback vp s) = {}"
proof -
  have "settled vp s (length (pending s))" by (simp add: settled_def)
  then have "settled vp (checkLoop vp (length (pending s)) s) 0"
    using checkLoop_settled[of "length (pending s)" s vp] by simp
  then have "set (pending (checkLoop vp (length (pending s)) s))
             \<inter> rv_visible (checkLoop vp (length (pending s)) s) = {}"
    by (auto simp: settled_def)
  then show ?thesis by (simp add: checkFallback_def Let_def)
qed

lemma checkLoop_observed: "rv_observed (checkLoop vp i s) \<subseteq> rv_observed s"
proof (induction i arbitrary: s)
  case 0
  then show ?case by simp
next
  case (Suc i)
  let ?el = "pending s ! i"
  let ?s1 = "s\<lparr>rv_rects := rv_rects s @ [?el]\<rparr>"
  have a: "rv_observed (checkLoop vp i (s\<lparr>pending := splice1 i (pending s)\<rparr>)) \<subseteq> rv_observed s"
    using Suc.IH[of "s\<lparr>pending := splice1 i (pending s)\<rparr>"] by simp
  have b: "rv_observed (checkLoop vp i ?s1) \<subseteq> rv_observed s"
    using Suc.IH[of ?s1] by simp
  have c: "rv_observed (checkLoop vp i ((unobserve ?el (markVisible ?el ?s1))\<lparr>pending := splice1 i (pending ?s1)\<rparr>)) \<subseteq> rv_observed s"
    using Suc.IH[of "(unobserve ?el (markVisible ?el ?s1))\<lparr>pending := splice1 i (pending ?s1)\<rparr>"]
    by (auto simp: unobserve_def markVisible_def)
  show ?case using a b c by (simp add: Let_def)
qed

lemma checkLoop_new:
  "\<exists>new. rv_marks (checkLoop vp i s) = rv_marks s @ new \<and> distinct new
         \<and> set new \<inter> rv_visible s = {}
         \<and> set new \<inter> rv_observed (checkLoop vp i s) = {}"
proof (induction i arbitrary: s)
  case 0
  then show ?case by simp
next
  case (Suc i)
  let ?el = "pending s ! i"
  show ?case
  proof (cases "?el \<in> rv_visible s")
    case True
    then show ?thesis using Suc.IH[of "s\<lparr>pending := splice1 i (pending s)\<rparr>"] by simp
  next
    case False
    let ?s1 = "s\<lparr>rv_rects := rv_rects s @ [?el]\<rparr>"
    let ?s2 = "(unobserve ?el (markVisible ?el ?s1))\<lparr>pending := splice1 i (pending ?s1)\<rparr>"
    let ?C = "rect_top vp ?el < vp_innerHeight vp \<and> rect_bottom vp ?el > 0"
    have unf: "checkLoop vp (Suc i) s = (if ?C then checkLoop vp i ?s2 else checkLoop vp i ?s1)"
      using False by (simp add: Let_def)
    show ?thesis
    proof (cases ?C)
      case out: False
      have "checkLoop vp (Suc i) s = checkLoop vp i ?s1"
        unfolding unf using out by (simp only: if_False)
      then show ?thesis using Suc.IH[of ?s1] by simp
    next
      case inview: True
      have eq: "checkLoop vp (Suc i) s = checkLoop vp i ?s2"
        unfolding unf using inview by simp
      obtain new where n: "rv_marks (checkLoop vp i ?s2) = rv_marks ?s2 @ new" "distinct new"
        "set new \<inter> rv_visible ?s2 = {}" "set new \<inter> rv_observed (checkLoop vp i ?s2) = {}"
        using Suc.IH[of ?s2] by blast
      have m2: "rv_marks ?s2 = rv_marks s @ [?el]" by (simp add: unobserve_def markVisible_def)
      have v2: "rv_visible ?s2 = insert ?el (rv_visible s)" by (simp add: unobserve_def markVisible_def)
      have o2: "?el \<notin> rv_observed ?s2" by (simp add: unobserve_def markVisible_def)
      have o3: "?el \<notin> rv_observed (checkLoop vp i ?s2)"
        using o2 checkLoop_observed[where s = ?s2 and vp = vp and i = i] by blast
      have "rv_marks (checkLoop vp (Suc i) s) = rv_marks s @ (?el # new)"
        using n(1) m2 eq by simp
      moreover have "distinct (?el # new)" using n(2,3) v2 by auto
      moreover have "set (?el # new) \<inter> rv_visible s = {}" using n(3) v2 False by auto
      moreover have "set (?el # new) \<inter> rv_observed (checkLoop vp (Suc i) s) = {}"
        using n(4) o3 eq by auto
      ultimately show ?thesis by blast
    qed
  qed
qed

lemma checkFallback_new:
  "\<exists>new. rv_marks (checkFallback vp s) = rv_marks s @ new \<and> distinct new
         \<and> set new \<inter> rv_visible s = {}
         \<and> set new \<inter> rv_observed (checkFallback vp s) = {}"
  using checkLoop_new[where s = s and vp = vp and i = "length (pending s)"]
  by (simp add: checkFallback_def Let_def)

lemma init_mark_inv: "mark_inv (initScrollReveals True False els vis0)"
  by (simp add: initScrollReveals_def mark_inv_def Let_def)

lemma distinct_count_le: "distinct xs \<Longrightarrow> count_list xs x \<le> 1"
  by (induction xs) auto

text \<open>
  Claim C1 (as amended).  No handler removes the class, so along every run the visible
  set only grows: a target turns visible at most once and never reverts.  The fallback
  path checks the class before it commits: the elements one run of \<open>checkFallback\<close>
  marks are distinct, were not visible before, and are unobserved afterwards, and the
  run leaves no visible target in the pending list.  The observer path makes no such
  check; in a run where the observer only reports targets it still observes, each at
  most once per notification, \<open>classList.add('visible')\<close> is called at most once per
  target.
\<close>

theorem reveal_at_most_once:
  assumes "current_entries (initScrollReveals True False els vis0) es"
  shows "count_list (rv_marks (reveal_run (initScrollReveals True False els vis0) es)) t \<le> 1
       \<and> rv_visible (reveal_run (initScrollReveals True False els vis0) (take k es))
           \<subseteq> rv_visible (reveal_run (initScrollReveals True False els vis0) es)
       \<and> (\<exists>new. rv_marks (checkFallback vp s) = rv_marks s @ new \<and> distinct new
              \<and> set new \<inter> rv_visible s = {}
              \<and> set new \<inter> rv_observed (checkFallback vp s) = {})
       \<and> set (pending (checkFallback vp s)) \<inter> rv_visible (checkFallback vp s) = {}"
proof -
  let ?s0 = "initScrollReveals True False els vis0"
  have "mark_inv (reveal_run ?s0 es)"
    by (rule run_mark_inv[OF init_mark_inv assms])
  then have "distinct (rv_marks (reveal_run ?s0 es))"
    by (simp add: mark_inv_def)
  then have a: "count_list (rv_marks (reveal_run ?s0 es)) t \<le> 1"
    by (rule distinct_count_le)
  have "reveal_run ?s0 es = reveal_run (reveal_run ?s0 (take k es)) (drop k es)"
    by (simp flip: reveal_run_append)
  then have b: "rv_visible (reveal_run ?s0 (take k es)) \<subseteq> rv_visible (reveal_run ?s0 es)"
    using run_visible[where s = "reveal_run ?s0 (take k es)" and es = "drop k es"] by simp
  show ?thesis by (intro conjI a b checkFallback_new checkFallback_purges)
qed

theorem reveal_at_most_once_witness:
  "current_entries (initScrollReveals True False [1, 2] {})
     [RNotify [(1, True)], RScroll,
      RFrame \<lparr>vp_rects = [(1, 100, 200), (2, 300, 400)], vp_innerHeight = 800\<rparr>]
   \<and> rv_marks (reveal_run (initScrollReveals True False [1, 2] {})
     [RNotify [(1, True)], RScroll,
      RFrame \<lparr>vp_rects = [(1, 100, 200), (2, 300, 400)], vp_innerHeight = 800\<rparr>]) = [1, 2]
   \<and> count_list (rv_marks (reveal_run (initScrollReveals True False [1, 2] {})
     [RNotify [(1, True)], RScroll,
      RFrame \<lparr>vp_rects = [(1, 100, 200), (2, 300, 400)], vp_innerHeight = 800\<rparr>])) 1 \<le> 1"
proof -
  let ?es = "[RNotify [(1, True)], RScroll,
      RFrame \<lparr>vp_rects = [(1, 100, 200), (2, 300, 400)], vp_innerHeight = 800\<rparr>]"
  have h: "current_entries (initScrollReveals True False [1, 2] {}) ?es"
    by (simp add: initScrollReveals_def Let_def markVisible_def unobserve_def
        onScrollFallback_def)
  have c: "count_list (rv_marks (reveal_run (initScrollReveals True False [1, 2] {}) ?es)) 1 \<le> 1"
    using reveal_at_most_once[OF h, where t = 1] by (rule conjunct1)
  have m: "rv_marks (reveal_run (initScrollReveals True False [1, 2] {}) ?es) = [1, 2]"
    by (simp add: initScrollReveals_def checkFallback_def Let_def markVisible_def
        unobserve_def splice1_def rect_top_def rect_bottom_def onScrollFallback_def)
  show ?thesis by (intro conjI h m c)
qed

text \<open>
  Without that proviso the claim fails.  In a first frame target 1 lies just above the
  viewport: the fallback's test fails, but the box is within the observer's 50 pixel
  margin, so the observer queues an intersecting entry.  Before that entry is
  delivered, a scroll brings the target into the viewport and the fallback resolves and
  unobserves it; the entry then arrives and the callback marks the target once more.
\<close>

theorem reveal_double_mark_counterexample:
  "observer_reports revealObserver_options
      \<lparr>vp_rects = [(1, - 120, - 20)], vp_innerHeight = 800\<rparr> 1
   \<and> \<not> count_list (rv_marks (reveal_run (initScrollReveals True False [1] {})
       [RFrame \<lparr>vp_rects = [(1, - 120, - 20)], vp_innerHeight = 800\<rparr>, RScroll,
        RFrame \<lparr>vp_rects = [(1, - 90, 10)], vp_innerHeight = 800\<rparr>,
        RNotify [(1, True)]])) 1 \<le> 1"
  by (simp add: initScrollReveals_def checkFallback_def Let_def markVisible_def
      unobserve_def splice1_def rect_top_def rect_bottom_def onScrollFallback_def
      observer_reports_def root_top_def root_bottom_def revealObserver_options_def)

lemma checkFallback_teardown: "pending (checkFallback vp s) = [] \<Longrightarrow> \<not> rv_listening (checkFallback vp s)"
  by (simp add: checkFallback_def Let_def split: if_splits)

lemma checkLoop_listening [simp]: "rv_listening (checkLoop vp i s) = rv_listening s"
proof (induction i arbitrary: s)
  case 0
  then show ?case by simp
next
  case (Suc i)
  show ?case by (simp add: Let_def Suc.IH unobserve_def markVisible_def)
qed

lemma checkFallback_listening: "rv_listening (checkFallback vp s) \<Longrightarrow> rv_listening s"
  by (simp add: checkFallback_def Let_def split: if_splits)

lemma funpow_listening: "rv_listening ((checkFallback vp ^^ n) s) \<Longrightarrow> rv_listening s"
  by (induction n) (auto dest: checkFallback_listening)

lemma revealCallback_fallback_fields [simp]:
  "pending (revealCallback s entries) = pending s"
  "rv_listening (revealCallback s entries) = rv_listening s"
  "rv_rects (revealCallback s entries) = rv_rects s"
  "rv_scheduled (revealCallback s entries) = rv_scheduled s"
  "fallbackTicking (revealCallback s entries) = fallbackTicking s"
  by (induction s entries rule: revealCallback.induct)
     (simp_all add: unobserve_def markVisible_def)

lemma step_listening: "rv_listening (reveal_step s e) \<Longrightarrow> rv_listening s"
proof (cases e)
  case RScroll
  assume "rv_listening (reveal_step s e)"
  then show ?thesis using RScroll by (simp split: if_splits)
next
  case (RFrame vp)
  assume "rv_listening (reveal_step s e)"
  then have "rv_listening (s\<lparr>rv_scheduled := 0\<rparr>)"
    using RFrame funpow_listening[where s = "s\<lparr>rv_scheduled := 0\<rparr>"] by simp
  then show ?thesis by simp
next
  case (RNotify entries)
  assume "rv_listening (reveal_step s e)"
  then show ?thesis using RNotify by (simp split: if_splits)
qed

lemma run_listening: "rv_listening (reveal_run s es) \<Longrightarrow> rv_listening s"
proof (induction es arbitrary: s)
  case Nil
  then show ?case by simp
next
  case (Cons e es)
  then show ?case using step_listening[of s e] by simp
qed


lemma funpow_torn_down:
  "torn_down s \<Longrightarrow> torn_down ((checkFallback vp ^^ n) s)"
proof (cases n)
  case 0
  assume "torn_down s"
  then show ?thesis using 0 by simp
next
  case (Suc m)
  show ?thesis using Suc checkFallback_teardown[where vp = vp and s = "(checkFallback vp ^^ m) s"]
    by (simp add: torn_down_def)
qed

lemma step_torn_down: "torn_down s \<Longrightarrow> torn_down (reveal_step s e)"
proof (cases e)
  case RScroll
  assume "torn_down s"
  then show ?thesis using RScroll by (auto simp: torn_down_def onScrollFallback_def)
next
  case (RFrame vp)
  assume "torn_down s"
  then have "torn_down (s\<lparr>rv_scheduled := 0\<rparr>)" by (simp add: torn_down_def)
  then show ?thesis using RFrame by (simp add: funpow_torn_down)
next
  case (RNotify entries)
  assume "torn_down s"
  then show ?thesis using RNotify by (simp add: torn_down_def)
qed

lemma run_torn_down: "torn_down s \<Longrightarrow> torn_down (reveal_run s es)"
  by (induction es arbitrary: s) (simp_all add: step_torn_down)

lemma markAll_fields [simp]:
  "pending (foldl (\<lambda>s el. markVisible el s) s els) = pending s"
  "rv_listening (foldl (\<lambda>s el. markVisible el s) s els) = rv_listening s"
  "rv_visible (foldl (\<lambda>s el. markVisible el s) s els) = rv_visible s \<union> set els"
  by (induction els arbitrary: s) (auto simp: markVisible_def)

lemma init_torn_down: "torn_down (initScrollReveals hasObserver reduced els vis0)"
  by (simp add: torn_down_def initScrollReveals_def Let_def)

text \<open>With nothing pending, a run of the check does nothing but clear the flag.\<close>

lemma checkFallback_empty:
  "pending s = [] \<Longrightarrow> pending (checkFallback vp s) = [] \<and> rv_rects (checkFallback vp s) = rv_rects s"
  by (simp add: checkFallback_def Let_def)

lemma funpow_empty:
  "pending s = [] \<Longrightarrow> pending ((checkFallback vp ^^ n) s) = [] \<and> rv_rects ((checkFallback vp ^^ n) s) = rv_rects s"
proof (induction n)
  case 0
  then show ?case by simp
next
  case (Suc n)
  then show ?case using checkFallback_empty[where s = "(checkFallback vp ^^ n) s" and vp = vp] by simp
qed

lemma step_empty:
  "pending s = [] \<Longrightarrow> pending (reveal_step s e) = [] \<and> rv_rects (reveal_step s e) = rv_rects s"
proof (cases e)
  case RScroll
  assume "pending s = []"
  then show ?thesis using RScroll by (simp add: onScrollFallback_def)
next
  case (RFrame vp)
  assume "pending s = []"
  then show ?thesis using RFrame funpow_empty[where s = "s\<lparr>rv_scheduled := 0\<rparr>" and vp = vp and n = "rv_scheduled s"] by simp
next
  case (RNotify entries)
  assume "pending s = []"
  then show ?thesis using RNotify by simp
qed

lemma run_empty:
  "pending s = [] \<Longrightarrow> pending (reveal_run s es) = [] \<and> rv_rects (reveal_run s es) = rv_rects s"
proof (induction es arbitrary: s)
  case Nil
  then show ?case by simp
next
  case (Cons e es)
  have a: "pending (reveal_step s e) = []" and b: "rv_rects (reveal_step s e) = rv_rects s"
    using step_empty[OF Cons.prems, of e] by simp_all
  show ?case using Cons.IH[OF a] b by simp
qed

lemma scrolls_detached:
  "\<not> rv_listening s \<Longrightarrow> reveal_run s (replicate n RScroll) = s"
  by (induction n) simp_all

lemma checkLoop_resolved:
  "all_resolved s \<Longrightarrow> i \<le> length (pending s) \<Longrightarrow>
   checkLoop vp i s = s\<lparr>pending := drop i (pending s)\<rparr>"
proof (induction i arbitrary: s)
  case 0
  then show ?case by simp
next
  case (Suc i)
  let ?p = "pending s"
  have lt: "i < length ?p" using Suc.prems(2) by simp
  then have "?p ! i \<in> set ?p" by simp
  then have vis: "?p ! i \<in> rv_visible s" using Suc.prems(1) by (auto simp: all_resolved_def)
  let ?s' = "s\<lparr>pending := splice1 i ?p\<rparr>"
  have r: "all_resolved ?s'" using Suc.prems(1) set_splice1[of i ?p] by (auto simp: all_resolved_def)
  have l: "i \<le> length (pending ?s')" using lt by (simp add: length_splice1)
  have "checkLoop vp (Suc i) s = checkLoop vp i ?s'" using vis by simp
  also have "\<dots> = ?s'\<lparr>pending := drop i (pending ?s')\<rparr>" by (rule Suc.IH[OF r l])
  also have "\<dots> = s\<lparr>pending := drop (Suc i) ?p\<rparr>" using lt by (simp add: drop_splice1)
  finally show ?case .
qed

lemma checkFallback_resolved:
  "all_resolved s \<Longrightarrow>
   checkFallback vp s = s\<lparr>pending := [], fallbackTicking := False, rv_listening := False\<rparr>"
  by (simp add: checkFallback_def checkLoop_resolved Let_def)

lemma funpow_resolved:
  "all_resolved s \<Longrightarrow> 0 < n \<Longrightarrow>
   (checkFallback vp ^^ n) s = s\<lparr>pending := [], fallbackTicking := False, rv_listening := False\<rparr>"
proof (induction n)
  case 0
  then show ?case by simp
next
  case (Suc n)
  show ?case
  proof (cases n)
    case 0
    then show ?thesis using Suc.prems(1) by (simp add: checkFallback_resolved)
  next
    case (Suc m)
    then have "(checkFallback vp ^^ n) s = s\<lparr>pending := [], fallbackTicking := False, rv_listening := False\<rparr>"
      using Suc.IH Suc.prems(1) by simp
    moreover have "all_resolved (s\<lparr>pending := [], fallbackTicking := False, rv_listening := False\<rparr>)"
      by (simp add: all_resolved_def)
    ultimately show ?thesis by (simp add: checkFallback_resolved)
  qed
qed

lemma step_resolved:
  assumes "all_resolved s"
  shows "all_resolved (reveal_step s e) \<and> rv_rects (reveal_step s e) = rv_rects s"
proof (cases e)
  case RScroll
  then show ?thesis using assms by (simp add: all_resolved_def onScrollFallback_def)
next
  case (RFrame vp)
  let ?s' = "s\<lparr>rv_scheduled := 0\<rparr>"
  have r: "all_resolved ?s'" using assms by (simp add: all_resolved_def)
  show ?thesis
  proof (cases "rv_scheduled s")
    case 0
    then show ?thesis using RFrame r by simp
  next
    case (Suc m)
    then have "reveal_step s e = ?s'\<lparr>pending := [], fallbackTicking := False, rv_listening := False\<rparr>"
      using RFrame funpow_resolved[OF r, of "Suc m" vp] by simp
    then show ?thesis by (simp add: all_resolved_def)
  qed
next
  case (RNotify entries)
  have "rv_visible s \<subseteq> rv_visible (revealCallback s entries)" by (rule revealCallback_visible)
  then show ?thesis using RNotify assms by (auto simp: all_resolved_def)
qed

lemma run_resolved:
  "all_resolved s \<Longrightarrow> all_resolved (reveal_run s es) \<and> rv_rects (reveal_run s es) = rv_rects s"
proof (induction es arbitrary: s)
  case Nil
  then show ?case by simp
next
  case (Cons e es)
  have a: "all_resolved (reveal_step s e)" and b: "rv_rects (reveal_step s e) = rv_rects s"
    using step_resolved[OF Cons.prems, of e] by simp_all
  show ?case using Cons.IH[OF a] b by simp
qed

text \<open>The pending list only shrinks.\<close>

lemma checkLoop_pending: "set (pending (checkLoop vp i s)) \<subseteq> set (pending s)"
proof (induction i arbitrary: s)
  case 0
  then show ?case by simp
next
  case (Suc i)
  let ?el = "pending s ! i"
  let ?s1 = "s\<lparr>rv_rects := rv_rects s @ [?el]\<rparr>"
  have a: "set (pending (checkLoop vp i (s\<lparr>pending := splice1 i (pending s)\<rparr>))) \<subseteq> set (pending s)"
    using Suc.IH[of "s\<lparr>pending := splice1 i (pending s)\<rparr>"] set_splice1[of i "pending s"] by auto
  have b: "set (pending (checkLoop vp i ?s1)) \<subseteq> set (pending s)"
    using Suc.IH[of ?s1] by simp
  have c: "set (pending (checkLoop vp i ((unobserve ?el (markVisible ?el ?s1))\<lparr>pending := splice1 i (pending ?s1)\<rparr>))) \<subseteq> set (pending s)"
    using Suc.IH[of "(unobserve ?el (markVisible ?el ?s1))\<lparr>pending := splice1 i (pending ?s1)\<rparr>"]
      set_splice1[of i "pending s"]
    by (auto simp: unobserve_def markVisible_def)
  show ?case using a b c by (simp add: Let_def)
qed

lemma checkFallback_pending: "set (pending (checkFallback vp s)) \<subseteq> set (pending s)"
  using checkLoop_pending[where s = s and vp = vp and i = "length (pending s)"]
  by (simp add: checkFallback_def Let_def)

lemma funpow_pending: "set (pending ((checkFallback vp ^^ n) s)) \<subseteq> set (pending s)"
proof (induction n)
  case 0
  then show ?case by simp
next
  case (Suc n)
  then show ?case
    using checkFallback_pending[where s = "(checkFallback vp ^^ n) s" and vp = vp] by auto
qed

lemma step_pending: "set (pending (reveal_step s e)) \<subseteq> set (pending s)"
proof (cases e)
  case RScroll
  then show ?thesis by (simp add: onScrollFallback_def)
next
  case (RFrame vp)
  then show ?thesis
    using funpow_pending[where s = "s\<lparr>rv_scheduled := 0\<rparr>" and vp = vp and n = "rv_scheduled s"]
    by simp
next
  case (RNotify entries)
  then show ?thesis by simp
qed

lemma run_pending: "set (pending (reveal_run s es)) \<subseteq> set (pending s)"
proof (induction es arbitrary: s)
  case Nil
  then show ?case by simp
next
  case (Cons e es)
  show ?case using step_pending[of s e] Cons.IH[of "reveal_step s e"] by auto
qed

lemma init_pending: "set (pending (initScrollReveals hasObserver reduced els vis0)) \<subseteq> set els"
  by (simp add: initScrollReveals_def Let_def)

text \<open>The flags of the fallback.\<close>

lemma checkLoop_flags [simp]:
  "fallbackTicking (checkLoop vp i s) = fallbackTicking s"
  "rv_scheduled (checkLoop vp i s) = rv_scheduled s"
proof (induction i arbitrary: s)
  case 0
  { case 1 show ?case by simp }
  { case 2 show ?case by simp }
next
  case (Suc i)
  { case 1 show ?case by (simp add: Let_def Suc.IH unobserve_def markVisible_def) }
  { case 2 show ?case by (simp add: Let_def Suc.IH unobserve_def markVisible_def) }
qed

lemma checkFallback_inv:
  "\<not> rv_listening s \<longrightarrow> pending s = [] \<Longrightarrow>
   \<not> fallbackTicking (checkFallback vp s)
   \<and> (\<not> rv_listening (checkFallback vp s) \<longrightarrow> pending (checkFallback vp s) = [])"
  by (auto simp: checkFallback_def Let_def)

lemma funpow_inv:
  assumes "\<not> rv_listening s \<longrightarrow> pending s = []"
  shows "(0 < n \<longrightarrow> \<not> fallbackTicking ((checkFallback vp ^^ n) s))
       \<and> (\<not> rv_listening ((checkFallback vp ^^ n) s) \<longrightarrow> pending ((checkFallback vp ^^ n) s) = [])"
proof (induction n)
  case 0
  then show ?case using assms by simp
next
  case (Suc n)
  then show ?case
    using checkFallback_inv[where s = "(checkFallback vp ^^ n) s" and vp = vp] by simp
qed

lemma step_fallback_inv: "fallback_inv s \<Longrightarrow> fallback_inv (reveal_step s e)"
proof (cases e)
  case RScroll
  assume "fallback_inv s"
  then show ?thesis using RScroll by (auto simp: fallback_inv_def onScrollFallback_def)
next
  case (RFrame vp)
  assume i: "fallback_inv s"
  let ?s' = "s\<lparr>rv_scheduled := 0\<rparr>"
  have l: "\<not> rv_listening ?s' \<longrightarrow> pending ?s' = []" using i by (simp add: fallback_inv_def)
  have sch: "rv_scheduled ((checkFallback vp ^^ n) ?s') = 0" for n
    by (induction n) (simp_all add: checkFallback_def Let_def)
  show ?thesis
  proof (cases "rv_scheduled s")
    case 0
    then have "\<not> fallbackTicking s" using i by (simp add: fallback_inv_def)
    then show ?thesis using RFrame 0 i by (simp add: fallback_inv_def)
  next
    case (Suc m)
    then show ?thesis using RFrame funpow_inv[OF l, of "Suc m" vp] sch[of "Suc m"]
      by (simp add: fallback_inv_def)
  qed
next
  case (RNotify entries)
  assume "fallback_inv s"
  then show ?thesis using RNotify by (simp add: fallback_inv_def)
qed

lemma run_fallback_inv: "fallback_inv s \<Longrightarrow> fallback_inv (reveal_run s es)"
  by (induction es arbitrary: s) (simp_all add: step_fallback_inv)

lemma markAll_ticking [simp]:
  "fallbackTicking (foldl (\<lambda>s el. markVisible el s) s els) = fallbackTicking s"
  by (induction els arbitrary: s) (auto simp: markVisible_def)

lemma init_fallback_inv: "fallback_inv (initScrollReveals hasObserver reduced els vis0)"
  by (simp add: fallback_inv_def initScrollReveals_def Let_def)

lemma resolved_scroll_frame:
  assumes "all_resolved s" "fallback_inv s"
  shows "\<not> rv_listening (reveal_run s [RScroll, RFrame vp])
       \<and> pending (reveal_run s [RScroll, RFrame vp]) = []"
proof (cases "rv_listening s")
  case False
  then have p: "pending s = []" using assms(2) by (simp add: fallback_inv_def)
  have "\<not> rv_listening (reveal_run s [RScroll, RFrame vp])"
    using False run_listening by blast
  moreover have "pending (reveal_run s [RScroll, RFrame vp]) = []"
    using run_empty[OF p] by blast
  ultimately show ?thesis by simp
next
  case True
  let ?s1 = "reveal_step s RScroll"
  have sch: "0 < rv_scheduled ?s1"
    using True assms(2) by (auto simp: fallback_inv_def onScrollFallback_def)
  have r1: "all_resolved ?s1" using step_resolved[OF assms(1)] by blast
  then have r2: "all_resolved (?s1\<lparr>rv_scheduled := 0\<rparr>)" by (simp add: all_resolved_def)
  have "reveal_step ?s1 (RFrame vp)
        = (?s1\<lparr>rv_scheduled := 0\<rparr>)\<lparr>pending := [], fallbackTicking := False, rv_listening := False\<rparr>"
    using funpow_resolved[OF r2 sch, of vp] by simp
  then show ?thesis by simp
qed

text \<open>
  Claim C6.  In every state the engine reaches in which the pending list is empty, the
  fallback's scroll listener is detached; any number of further scroll events leaves the
  state as it is, and whatever events follow (scrolls, frames, notifications), no
  further bounding rectangle is read and the listener is never attached again.  And as
  soon as every target is visible, even with entries left in the pending list, no
  bounding rectangle is read any more, and the next scroll event and frame empty the
  list and detach the listener.
\<close>

theorem fallback_teardown:
  "(pending (reveal_run (initScrollReveals hasObserver reduced els vis0) es) = [] \<longrightarrow>
      \<not> rv_listening (reveal_run (initScrollReveals hasObserver reduced els vis0) es)
      \<and> reveal_run (initScrollReveals hasObserver reduced els vis0) (es @ replicate n RScroll)
          = reveal_run (initScrollReveals hasObserver reduced els vis0) es
      \<and> rv_rects (reveal_run (initScrollReveals hasObserver reduced els vis0) (es @ es'))
          = rv_rects (reveal_run (initScrollReveals hasObserver reduced els vis0) es)
      \<and> \<not> rv_listening (reveal_run (initScrollReveals hasObserver reduced els vis0) (es @ es')))
   \<and> (set els \<subseteq> rv_visible (reveal_run (initScrollReveals hasObserver reduced els vis0) es) \<longrightarrow>
      rv_rects (reveal_run (initScrollReveals hasObserver reduced els vis0) (es @ es'))
          = rv_rects (reveal_run (initScrollReveals hasObserver reduced els vis0) es)
      \<and> pending (reveal_run (initScrollReveals hasObserver reduced els vis0)
                   (es @ [RScroll, RFrame vp])) = []
      \<and> \<not> rv_listening (reveal_run (initScrollReveals hasObserver reduced els vis0)
                   (es @ [RScroll, RFrame vp])))"
proof -
  let ?ini = "initScrollReveals hasObserver reduced els vis0"
  let ?s = "reveal_run ?ini es"
  have first: "\<not> rv_listening ?s \<and> reveal_run ?ini (es @ replicate n RScroll) = ?s
      \<and> rv_rects (reveal_run ?ini (es @ es')) = rv_rects ?s
      \<and> \<not> rv_listening (reveal_run ?ini (es @ es'))"
    if e: "pending ?s = []"
  proof -
    have "torn_down ?s" by (rule run_torn_down[OF init_torn_down])
    then have a: "\<not> rv_listening ?s" using e by (simp add: torn_down_def)
    have b: "reveal_run ?ini (es @ replicate n RScroll) = ?s"
      unfolding reveal_run_append by (rule scrolls_detached[OF a])
    have c: "rv_rects (reveal_run ?ini (es @ es')) = rv_rects ?s"
      using run_empty[OF e, of es'] by simp
    have d: "\<not> rv_listening (reveal_run ?ini (es @ es'))"
      using a run_listening[of ?s es'] by auto
    show ?thesis by (intro conjI a b c d)
  qed
  have second: "rv_rects (reveal_run ?ini (es @ es')) = rv_rects ?s
      \<and> pending (reveal_run ?ini (es @ [RScroll, RFrame vp])) = []
      \<and> \<not> rv_listening (reveal_run ?ini (es @ [RScroll, RFrame vp]))"
    if v: "set els \<subseteq> rv_visible ?s"
  proof -
    have "set (pending ?s) \<subseteq> set els"
      using run_pending[of ?ini es] init_pending[of hasObserver reduced els vis0] by blast
    then have r: "all_resolved ?s" using v by (auto simp: all_resolved_def)
    have i: "fallback_inv ?s" by (rule run_fallback_inv[OF init_fallback_inv])
    have a: "rv_rects (reveal_run ?ini (es @ es')) = rv_rects ?s"
      using run_resolved[OF r, of es'] by simp
    have b: "pending (reveal_run ?ini (es @ [RScroll, RFrame vp])) = []"
      and c: "\<not> rv_listening (reveal_run ?ini (es @ [RScroll, RFrame vp]))"
      using resolved_scroll_frame[OF r i, of vp] by (simp_all del: reveal_run_Cons)
    show ?thesis by (intro conjI a b c)
  qed
  show ?thesis using first second by blast
qed

theorem fallback_teardown_witness:
  "pending (reveal_run (initScrollReveals True False [1, 2] {})
     [RFrame \<lparr>vp_rects = [(1, 100, 200), (2, 900, 1000)], vp_innerHeight = 800\<rparr>, RScroll,
      RFrame \<lparr>vp_rects = [(1, -400, -300), (2, 400, 500)], vp_innerHeight = 800\<rparr>]) = []
   \<and> rv_rects (reveal_run (initScrollReveals True False [1, 2] {})
     ([RFrame \<lparr>vp_rects = [(1, 100, 200), (2, 900, 1000)], vp_innerHeight = 800\<rparr>, RScroll,
      RFrame \<lparr>vp_rects = [(1, -400, -300), (2, 400, 500)], vp_innerHeight = 800\<rparr>]
      @ [RScroll, RFrame \<lparr>vp_rects = [], vp_innerHeight = 800\<rparr>, RScroll])) = [2, 1, 2]
   \<and> {1, 2} \<subseteq> rv_visible (reveal_run (initScrollReveals True False [1, 2] {})
        [RFrame \<lparr>vp_rects = [(1, 100, 200), (2, 900, 1000)], vp_innerHeight = 800\<rparr>,
         RNotify [(2, True)]])
   \<and> pending (reveal_run (initScrollReveals True False [1, 2] {})
        [RFrame \<lparr>vp_rects = [(1, 100, 200), (2, 900, 1000)], vp_innerHeight = 800\<rparr>,
         RNotify [(2, True)]]) = [2]
   \<and> \<not> rv_listening (reveal_run (initScrollReveals True False [1, 2] {})
        ([RFrame \<lparr>vp_rects = [(1, 100, 200), (2, 900, 1000)], vp_innerHeight = 800\<rparr>,
          RNotify [(2, True)]]
         @ [RScroll, RFrame \<lparr>vp_rects = [(1, 100, 200), (2, 900, 1000)], vp_innerHeight = 800\<rparr>]))"
proof -
  let ?es = "[RFrame \<lparr>vp_rects = [(1, 100, 200), (2, 900, 1000)], vp_innerHeight = 800\<rparr>, RScroll,
      RFrame \<lparr>vp_rects = [(1, -400, -300), (2, 400, 500)], vp_innerHeight = 800\<rparr>]"
  let ?es2 = "[RFrame \<lparr>vp_rects = [(1, 100, 200), (2, 900, 1000)], vp_innerHeight = 800\<rparr>,
         RNotify [(2, True)]]"
  let ?s0 = "initScrollReveals True False [1, 2] {}"
  have s: "reveal_run ?s0 ?es =
      \<lparr>rv_visible = {2, 1}, rv_observer = Some revealObserver_options, rv_observed = {},
       pending = [], fallbackTicking = False, rv_listening = False, rv_scheduled = 0,
       rv_marks = [1, 2], rv_rects = [2, 1, 2]\<rparr>"
    by (simp add: initScrollReveals_def checkFallback_def Let_def markVisible_def
        unobserve_def splice1_def rect_top_def rect_bottom_def onScrollFallback_def)
  have s2: "reveal_run ?s0 ?es2 =
      \<lparr>rv_visible = {2, 1}, rv_observer = Some revealObserver_options, rv_observed = {},
       pending = [2], fallbackTicking = False, rv_listening = True, rv_scheduled = 0,
       rv_marks = [1, 2], rv_rects = [2, 1]\<rparr>"
    by (simp add: initScrollReveals_def checkFallback_def Let_def markVisible_def
        unobserve_def splice1_def rect_top_def rect_bottom_def onScrollFallback_def)
  have h: "pending (reveal_run ?s0 ?es) = []" by (simp only: s reveal.simps)
  have r: "rv_rects (reveal_run ?s0 ?es) = [2, 1, 2]" by (simp only: s reveal.simps)
  have v: "set [1, 2] \<subseteq> rv_visible (reveal_run ?s0 ?es2)" unfolding s2 by simp
  have p2: "pending (reveal_run ?s0 ?es2) = [2]" by (simp only: s2 reveal.simps)
  have "rv_rects (reveal_run ?s0 (?es @ [RScroll, RFrame \<lparr>vp_rects = [], vp_innerHeight = 800\<rparr>, RScroll]))
      = rv_rects (reveal_run ?s0 ?es)"
    using fallback_teardown[of True False "[1, 2]" "{}" ?es] h by blast
  then have a: "rv_rects (reveal_run ?s0 (?es @ [RScroll, RFrame \<lparr>vp_rects = [], vp_innerHeight = 800\<rparr>, RScroll])) = [2, 1, 2]"
    using r by simp
  have b: "\<not> rv_listening (reveal_run ?s0
        (?es2 @ [RScroll, RFrame \<lparr>vp_rects = [(1, 100, 200), (2, 900, 1000)], vp_innerHeight = 800\<rparr>]))"
    using fallback_teardown[of True False "[1, 2]" "{}" ?es2] v by blast
  have v': "{1, 2} \<subseteq> rv_visible (reveal_run ?s0 ?es2)" using v by simp
  show ?thesis by (intro conjI h a v' p2 b)
qed

lemma ticker_step_listening: "tk_listening (ticker_step s e) = tk_listening s"
proof (cases e)
  case (Scroll y)
  then show ?thesis by (simp add: onScroll_def Let_def)
next
  case (Frame h)
  have "tk_listening ((tickerFrame h ^^ n) t) = tk_listening t" for n t
    by (induction n) simp_all
  then show ?thesis using Frame by simp
qed

lemma ticker_run_listening: "tk_listening (ticker_run s es) = tk_listening s"
  by (induction es arbitrary: s) (simp_all add: ticker_step_listening)

text \<open>
  Claim C7 (as amended).  If reduced motion is requested or the observation primitive is
  unavailable, every revealable target is visible right after initialisation and the
  reveal engine never has a scroll listener attached, whatever events follow.  If
  reduced motion is requested, the ticker never has a scroll listener attached either.
  (The ticker does not consult the observation primitive.)
\<close>

theorem degraded_mode:
  "(prefersReducedMotion \<or> \<not> hasObserver \<longrightarrow>
      set els \<subseteq> rv_visible (pg_reveal (init hasObserver prefersReducedMotion els vis0 hero y0))
      \<and> \<not> rv_listening
           (reveal_run (pg_reveal (init hasObserver prefersReducedMotion els vis0 hero y0)) es))
   \<and> (prefersReducedMotion \<longrightarrow>
      \<not> tk_listening
           (ticker_run (pg_ticker (init hasObserver prefersReducedMotion els vis0 hero y0)) tes))"
proof -
  have a: "set els \<subseteq> rv_visible (initScrollReveals hasObserver prefersReducedMotion els vis0)"
    if "prefersReducedMotion \<or> \<not> hasObserver"
    using that by (auto simp: initScrollReveals_def Let_def)
  have "\<not> rv_listening (initScrollReveals hasObserver prefersReducedMotion els vis0)"
    if "prefersReducedMotion \<or> \<not> hasObserver"
    using that by (auto simp: initScrollReveals_def Let_def)
  then have b: "\<not> rv_listening (reveal_run (initScrollReveals hasObserver prefersReducedMotion els vis0) es)"
    if "prefersReducedMotion \<or> \<not> hasObserver"
    using that run_listening by blast
  have c: "\<not> tk_listening (ticker_run (initScrollLinked prefersReducedMotion hero y0) tes)"
    if "prefersReducedMotion"
    using that by (simp add: ticker_run_listening initScrollLinked_def)
  show ?thesis using a b c by (simp add: init_def)
qed

theorem degraded_mode_witness:
  "rv_visible (pg_reveal (init True True [1, 2] {} True 0)) = {1, 2}
   \<and> \<not> rv_listening (reveal_run (pg_reveal (init True True [1, 2] {} True 0))
          [RScroll, RFrame \<lparr>vp_rects = [], vp_innerHeight = 800\<rparr>])
   \<and> \<not> tk_listening (ticker_run (pg_ticker (init True True [1, 2] {} True 0)) [Scroll 10, Frame 800])"
proof -
  have v: "rv_visible (pg_reveal (init True True [1, 2] {} True 0)) = {1, 2}"
    by (auto simp: init_def initScrollReveals_def Let_def markVisible_def)
  show ?thesis
    using degraded_mode[of True True "[1, 2]" "{}" True 0
        "[RScroll, RFrame \<lparr>vp_rects = [], vp_innerHeight = 800\<rparr>]" "[Scroll 10, Frame 800]"] v
    by blast
qed

text \<open>
  With the observation primitive unavailable and no reduced-motion request, the targets
  are visible and the reveal engine attaches nothing, but the ticker does attach its
  scroll listener.
\<close>

theorem ticker_without_observer_counterexample:
  "rv_visible (pg_reveal (init False False [1, 2] {} True 0)) = {1, 2}
   \<and> \<not> rv_listening (pg_reveal (init False False [1, 2] {} True 0))
   \<and> tk_listening (pg_ticker (init False False [1, 2] {} True 0))"
  by (auto simp: init_def initScrollReveals_def initScrollLinked_def Let_def markVisible_def)

text \<open>
  Claim C9 (as amended).  In normal mode the observer watches all targets, with the
  fixed root margin \<open>50px 0px -60px 0px\<close>: the rectangle targets are tested against
  reaches 50 pixels above the viewport's top edge and ends 60 pixels above its bottom
  edge, whatever the viewport height \<open>h\<close>.  The expansion at the top is a constant
  number of pixels, not a share of the viewport: for every viewport higher than 200
  pixels it is less than a quarter of the viewport height.
\<close>

theorem observer_margin:
  "rv_observer (initScrollReveals True False (e # els) vis0) = Some revealObserver_options
   \<and> rv_observed (initScrollReveals True False (e # els) vis0) = set (e # els)
   \<and> margin_top revealObserver_options = Px 50
   \<and> margin_bottom revealObserver_options = Px (- 60)
   \<and> top_expansion revealObserver_options h = 50
   \<and> root_top revealObserver_options h = - 50
   \<and> root_bottom revealObserver_options h = h - 60
   \<and> (200 < h \<longrightarrow> \<not> roughly_half_viewport (top_expansion revealObserver_options h) h)"
  by (simp add: initScrollReveals_def Let_def revealObserver_options_def top_expansion_def
      root_top_def root_bottom_def roughly_half_viewport_def)

theorem observer_margin_witness:
  "(200::real) < 1000 \<and> top_expansion revealObserver_options 1000 = 50
   \<and> root_bottom revealObserver_options 1000 = 940
   \<and> \<not> roughly_half_viewport (top_expansion revealObserver_options 1000) 1000"
proof -
  have h: "(200::real) < 1000" by simp
  have r: "root_bottom revealObserver_options 1000 = 1000 - 60 \<longrightarrow>
           root_bottom revealObserver_options 1000 = 940" by simp
  from observer_margin[of 1 "[]" "{}" 1000] h r show ?thesis by blast
qed

text \<open>
  In a viewport 1000 pixels high the top bound is expanded by 50 pixels, which is not
  about half the viewport height.
\<close>

theorem observer_margin_counterexample:
  "\<not> roughly_half_viewport (top_expansion revealObserver_options 1000) 1000"
  by (simp add: revealObserver_options_def top_expansion_def roughly_half_viewport_def)

subsection \<open>Trimming\<close>

lemma ws_token_shape:
  "\<forall>w\<in>set ws_tokens. w \<noteq> [] \<and>
     length w = (if hd w = CHR 0xC2 then 2
                 else if hd w \<in> {CHR 0xE1, CHR 0xE2, CHR 0xE3, CHR 0xEF} then 3 else 1)"
  by (simp add: ws_tokens_def)

lemma ws_token_nonempty: "w \<in> set ws_tokens \<Longrightarrow> w \<noteq> []"
  using ws_token_shape by blast

lemma ws_token_same_head:
  assumes "w \<in> set ws_tokens" "t \<in> set ws_tokens" "hd w = hd t"
  shows "length w = length t"
  using assms ws_token_shape by metis

lemma ws_head_zero: "ws_head s = 0 \<longleftrightarrow> (\<forall>w\<in>set ws_tokens. \<not> prefix w s)"
proof
  assume z: "ws_head s = 0"
  show "\<forall>w\<in>set ws_tokens. \<not> prefix w s"
  proof (cases "find (\<lambda>w. prefix w s) ws_tokens")
    case None
    then show ?thesis by (simp add: find_None_iff)
  next
    case (Some w)
    then have "w \<in> set ws_tokens" by (auto simp: find_Some_iff)
    then have "w \<noteq> []" by (rule ws_token_nonempty)
    then show ?thesis using z Some by (simp add: ws_head_def)
  qed
next
  assume "\<forall>w\<in>set ws_tokens. \<not> prefix w s"
  then have "find (\<lambda>w. prefix w s) ws_tokens = None" by (simp add: find_None_iff)
  then show "ws_head s = 0" by (simp add: ws_head_def)
qed

lemma ws_last_zero: "ws_last s = 0 \<longleftrightarrow> (\<forall>w\<in>set ws_tokens. \<not> suffix w s)"
proof
  assume z: "ws_last s = 0"
  show "\<forall>w\<in>set ws_tokens. \<not> suffix w s"
  proof (cases "find (\<lambda>w. suffix w s) ws_tokens")
    case None
    then show ?thesis by (simp add: find_None_iff)
  next
    case (Some w)
    then have "w \<in> set ws_tokens" by (auto simp: find_Some_iff)
    then have "w \<noteq> []" by (rule ws_token_nonempty)
    then show ?thesis using z Some by (simp add: ws_last_def)
  qed
next
  assume "\<forall>w\<in>set ws_tokens. \<not> suffix w s"
  then have "find (\<lambda>w. suffix w s) ws_tokens = None" by (simp add: find_None_iff)
  then show "ws_last s = 0" by (simp add: ws_last_def)
qed

lemma trimStart_head: "ws_head (trimStart s) = 0"
proof (induction s rule: trimStart.induct)
  case (1 s)
  show ?case
  proof (cases "ws_head s = 0")
    case True
    then show ?thesis by (simp add: trimStart.simps[of s])
  next
    case False
    then show ?thesis using "1.IH" by (simp add: trimStart.simps[of s])
  qed
qed

lemma trimEnd_last: "ws_last (trimEnd s) = 0"
proof (induction s rule: trimEnd.induct)
  case (1 s)
  show ?case
  proof (cases "ws_last s = 0")
    case True
    then show ?thesis by (simp add: trimEnd.simps[of s])
  next
    case False
    then show ?thesis using "1.IH" by (simp add: trimEnd.simps[of s])
  qed
qed

lemma trimEnd_prefix: "prefix (trimEnd s) s"
proof (induction s rule: trimEnd.induct)
  case (1 s)
  show ?case
  proof (cases "ws_last s = 0")
    case True
    then show ?thesis by (simp add: trimEnd.simps[of s])
  next
    case False
    have "prefix (trimEnd (take (length s - ws_last s) s)) (take (length s - ws_last s) s)"
      using "1.IH" False by simp
    moreover have "prefix (take (length s - ws_last s) s) s" by (rule take_is_prefix)
    ultimately have "prefix (trimEnd (take (length s - ws_last s) s)) s"
      by (rule prefix_order.trans)
    then show ?thesis using False by (simp add: trimEnd.simps[of s])
  qed
qed

lemma trimEnd_head: "ws_head s = 0 \<Longrightarrow> ws_head (trimEnd s) = 0"
proof -
  assume z: "ws_head s = 0"
  have "\<not> prefix w (trimEnd s)" if w: "w \<in> set ws_tokens" for w
  proof
    assume "prefix w (trimEnd s)"
    then have "prefix w s" using trimEnd_prefix[of s] by (rule prefix_order.trans)
    then show False using z w by (simp add: ws_head_zero)
  qed
  then show ?thesis by (simp add: ws_head_zero)
qed

lemma trim_clean:
  "(\<forall>w\<in>set ws_tokens. \<not> prefix w (trim s)) \<and> (\<forall>w\<in>set ws_tokens. \<not> suffix w (trim s))"
  using trimEnd_head[OF trimStart_head, of s] trimEnd_last[of "trimStart s"]
  by (simp add: trim_def ws_head_zero ws_last_zero)

lemma trimStart_Nil [simp]: "trimStart [] = []"
proof -
  have "ws_head [] = 0" using ws_token_nonempty by (auto simp: ws_head_zero)
  then show ?thesis by (simp add: trimStart.simps[of "[]"])
qed

lemma trimEnd_Nil [simp]: "trimEnd [] = []"
proof -
  have "ws_last [] = 0" using ws_token_nonempty by (auto simp: ws_last_zero)
  then show ?thesis by (simp add: trimEnd.simps[of "[]"])
qed

lemma trim_Nil [simp]: "trim [] = []"
  by (simp add: trim_def)

lemma ws_head_token:
  assumes "w \<in> set ws_tokens"
  shows "ws_head (w @ rest) = length w"
proof -
  have "prefix w (w @ rest)" by simp
  then have "find (\<lambda>t. prefix t (w @ rest)) ws_tokens \<noteq> None"
    using assms by (auto simp: find_None_iff)
  then obtain t where t: "find (\<lambda>t. prefix t (w @ rest)) ws_tokens = Some t" by blast
  then have tt: "t \<in> set ws_tokens" and tp: "prefix t (w @ rest)"
    by (auto simp: find_Some_iff)
  have wn: "w \<noteq> []" and tn: "t \<noteq> []" using assms tt ws_token_nonempty by blast+
  have "hd t = hd (w @ rest)" using tp tn by (auto simp: prefix_def)
  then have "hd t = hd w" using wn by simp
  then have "length t = length w" using ws_token_same_head[OF tt assms] by simp
  then show ?thesis using t by (simp add: ws_head_def)
qed

lemma trimStart_blank: "set ws \<subseteq> set ws_tokens \<Longrightarrow> trimStart (concat ws) = []"
proof (induction ws)
  case Nil
  then show ?case by simp
next
  case (Cons w ws)
  have w: "w \<in> set ws_tokens" using Cons.prems by simp
  have h: "ws_head (w @ concat ws) = length w" by (rule ws_head_token[OF w])
  have "length w \<noteq> 0" using ws_token_nonempty[OF w] by simp
  then have "trimStart (w @ concat ws) = trimStart (concat ws)"
    using h by (simp add: trimStart.simps[of "w @ concat ws"])
  then show ?case using Cons by simp
qed

lemma trim_blank: "set ws \<subseteq> set ws_tokens \<Longrightarrow> trim (concat ws) = []"
  by (simp add: trim_def trimStart_blank)

subsection \<open>Conversational form\<close>

lemma convo_run_Nil [simp]: "convo_run pills s [] = s"
  by (simp add: convo_run_def)

lemma convo_run_Cons [simp]:
  "convo_run pills s (e # es) = convo_run pills (convo_step pills s e) es"
  by (simp add: convo_run_def)

lemma convo_run_append [simp]:
  "convo_run pills s (es @ es') = convo_run pills (convo_run pills s es) es'"
  by (simp add: convo_run_def)

lemma send_refused_name: "trim n = [] \<Longrightarrow> sendBtn_click n e t s = flag NameInput s"
  by (simp add: sendBtn_click_def)

lemma send_refused_email:
  "trim n \<noteq> [] \<Longrightarrow> trim e = [] \<or> CHR ''@'' \<notin> set (trim e)
   \<Longrightarrow> sendBtn_click n e t s = flag EmailInput s"
  by (auto simp: sendBtn_click_def Let_def)

lemma send_accepted:
  "trim n \<noteq> [] \<Longrightarrow> trim e \<noteq> [] \<Longrightarrow> CHR ''@'' \<in> set (trim e) \<Longrightarrow>
   sendBtn_click n e t s =
     s\<lparr>answers := (answers s)\<lparr>a_name := trim n, a_email := trim e, a_note := trim t\<rparr>,
       cf_active := None,
       cf_chat := cf_chat s @ [Bubble User (trim n @ '' '' @ emdash @ '' '' @ trim e),
                               Typing (cf_nextId s)],
       cf_timers := cf_timers s @
          [(cf_nextId s, 400,
            AfterSend (mailtoLink ((answers s)\<lparr>a_name := trim n, a_email := trim e, a_note := trim t\<rparr>)))],
       cf_nextId := Suc (cf_nextId s)\<rparr>"
  by (simp add: sendBtn_click_def Let_def showTyping_def setTimeout_def addBubble_def showStep_def)










lemma resume_answers [simp]: "answers (resume k s) = answers s"
  by (cases k) (simp_all add: addBubble_def showStep_def setTimeout_def)
















subsection \<open>Conversational form: the claims\<close>

lemma flag_fields [simp]:
  "cf_active (flag f s) = cf_active s"
  "cf_hidden (flag f s) = cf_hidden s"
  "answers (flag f s) = answers s"
  "cf_chat (flag f s) = cf_chat s"
  "cf_timers (flag f s) = cf_timers s"
  "cf_location (flag f s) = cf_location s"
  "cf_panels (flag f s) = cf_panels s"
  "cf_nextId (flag f s) = cf_nextId s"
  "cf_formActive (flag f s) = cf_formActive s"
  "cf_focus (flag f s) = Some f"
  "f \<in> cf_flagged (flag f s)"
  by (simp_all add: flag_def)

lemma flag_derived [simp]:
  "transcript (flag f s) = transcript s"
  "succeeded (flag f s) = succeeded s"
  "usable st (flag f s) = usable st s"
  by (simp_all add: transcript_def succeeded_def usable_def)

lemma same_session_refl [simp]: "same_session s s"
  by (simp add: same_session_def)

lemma same_session_flag [simp]: "same_session s (flag f r) = same_session s r"
  by (simp add: same_session_def flag_def)

lemma refused_is_flag:
  "trim n = [] \<or> trim e = [] \<or> CHR ''@'' \<notin> set (trim e) \<Longrightarrow>
   sendBtn_click n e t s = flag (if trim n = [] then NameInput else EmailInput) s"
  by (auto simp: send_refused_name send_refused_email)

lemma refused_run:
  "\<forall>(n', e', t') \<in> set tries. trim n' = [] \<or> trim e' = [] \<or> CHR ''@'' \<notin> set (trim e')
   \<Longrightarrow> same_session s r
   \<Longrightarrow> same_session s (convo_run pills r (map (\<lambda>(n', e', t'). ClickSend n' e' t') tries))"
proof (induction tries arbitrary: r)
  case Nil
  then show ?case by simp
next
  case (Cons x xs)
  obtain n' e' t' where x: "x = (n', e', t')" by (cases x)
  have bad: "trim n' = [] \<or> trim e' = [] \<or> CHR ''@'' \<notin> set (trim e')"
    using Cons.prems(1) x by simp
  have s1: "same_session s (convo_step pills r (ClickSend n' e' t'))"
    using Cons.prems(2) by (simp add: refused_is_flag[OF bad])
  have rest: "\<forall>(n', e', t') \<in> set xs. trim n' = [] \<or> trim e' = [] \<or> CHR ''@'' \<notin> set (trim e')"
    using Cons.prems(1) by simp
  show ?case using Cons.IH[OF rest s1] x by simp
qed

lemma trim_examples:
  "trim ''Ana'' = ''Ana''" "trim ''ana@x.com'' = ''ana@x.com''" "trim ''  '' = []"
  "trim ''Bob'' = ''Bob''" "trim ''bob'' = ''bob''" "trim ''x'' = ''x''"
  "trim '' Ana  '' = ''Ana''" "trim ''a@b.com'' = ''a@b.com''"
  by code_simp+

text \<open>The example run of the spec: start, Design, Referral, then Ana, ana@x.com, no note.\<close>

lemma to_details:
  assumes "''Referral'' \<in> set pills"
  shows "convo_run pills initConvoForm
     [ClickStart, Timeout 0, ClickStep1Next ''Design'', Timeout 1, ClickPill ''Referral'',
      Timeout 2] =
   \<lparr>cf_formActive = True, cf_startAccent = True, cf_active = Some Step3, cf_hidden = False,
    answers = \<lparr>a_work = ''Design'', a_source = ''Referral'', a_name = [], a_email = [],
               a_note = []\<rparr>,
    cf_chat = [Bubble Bot question_work, Bubble User ''Design'', Bubble Bot question_source,
               Bubble User ''Referral'', Bubble Bot prompt_details],
    cf_timers = [(3, 100, FocusName)], cf_nextId = 4, cf_focus = None, cf_flagged = {},
    cf_panels = [], cf_location = []\<rparr>"
  using assms
  by (simp add: initConvoForm_def startBtn_click_def step1Next_click_def pill_click_def
      fire_def usable_def showTyping_def setTimeout_def addBubble_def showStep_def Let_def)

lemma to_success:
  assumes "''Referral'' \<in> set pills"
  shows "convo_run pills initConvoForm
     [ClickStart, Timeout 0, ClickStep1Next ''Design'', Timeout 1, ClickPill ''Referral'',
      Timeout 2, Timeout 3, ClickSend ''Ana'' ''ana@x.com'' [], Timeout 4] =
   \<lparr>cf_formActive = True, cf_startAccent = True, cf_active = None, cf_hidden = True,
    answers = \<lparr>a_work = ''Design'', a_source = ''Referral'', a_name = ''Ana'',
               a_email = ''ana@x.com'', a_note = []\<rparr>,
    cf_chat = [Bubble Bot question_work, Bubble User ''Design'', Bubble Bot question_source,
               Bubble User ''Referral'', Bubble Bot prompt_details,
               Bubble User (''Ana '' @ emdash @ '' ana@x.com'')],
    cf_timers = [], cf_nextId = 5, cf_focus = Some NameInput, cf_flagged = {},
    cf_panels = [successHTML (mailtoLink \<lparr>a_work = ''Design'', a_source = ''Referral'',
                   a_name = ''Ana'', a_email = ''ana@x.com'', a_note = []\<rparr>)],
    cf_location = [mailtoLink \<lparr>a_work = ''Design'', a_source = ''Referral'',
                   a_name = ''Ana'', a_email = ''ana@x.com'', a_note = []\<rparr>]\<rparr>"
proof -
  have split: "[ClickStart, Timeout 0, ClickStep1Next ''Design'', Timeout 1, ClickPill ''Referral'',
      Timeout 2, Timeout 3, ClickSend ''Ana'' ''ana@x.com'' [], Timeout 4]
    = [ClickStart, Timeout 0, ClickStep1Next ''Design'', Timeout 1, ClickPill ''Referral'',
      Timeout 2] @ [Timeout 3, ClickSend ''Ana'' ''ana@x.com'' [], Timeout 4]" by simp
  show ?thesis
    unfolding split convo_run_append to_details[OF assms]
    by (simp add: fire_def usable_def send_accepted trim_examples)
qed

lemma example_message:
  "compose_subject \<lparr>a_work = ''Design'', a_source = ''Referral'', a_name = ''Ana'',
      a_email = ''ana@x.com'', a_note = []\<rparr> = ''New inquiry from Ana '' @ emdash @ '' Design''"
  "lines_of (compose_body \<lparr>a_work = ''Design'', a_source = ''Referral'', a_name = ''Ana'',
      a_email = ''ana@x.com'', a_note = []\<rparr>) =
     [''Hi Azlan,'', [], ''Name: Ana'', ''Email: ana@x.com'', ''Looking for: Design'',
      ''Found you via: Referral'', [], ''Sent from your portfolio site.'']"
  "mailtoLink \<lparr>a_work = ''Design'', a_source = ''Referral'', a_name = ''Ana'',
      a_email = ''ana@x.com'', a_note = []\<rparr> =
     ''mailto:azlanallahwala@gmail.com?subject=New%20inquiry%20from%20Ana%20%E2%80%94%20Design&body=Hi%20Azlan%2C%0A%0AName%3A%20Ana%0AEmail%3A%20ana%40x.com%0ALooking%20for%3A%20Design%0AFound%20you%20via%3A%20Referral%0A%0ASent%20from%20your%20portfolio%20site.''"
  by code_simp+

lemma details_state_fields:
  "cf_active (convo_run [''Referral''] initConvoForm
     [ClickStart, Timeout 0, ClickStep1Next ''Design'', Timeout 1, ClickPill ''Referral'',
      Timeout 2]) = Some Step3"
  "usable Step3 (convo_run [''Referral''] initConvoForm
     [ClickStart, Timeout 0, ClickStep1Next ''Design'', Timeout 1, ClickPill ''Referral'',
      Timeout 2])"
  "a_work (answers (convo_run [''Referral''] initConvoForm
     [ClickStart, Timeout 0, ClickStep1Next ''Design'', Timeout 1, ClickPill ''Referral'',
      Timeout 2])) = ''Design''"
  "a_source (answers (convo_run [''Referral''] initConvoForm
     [ClickStart, Timeout 0, ClickStep1Next ''Design'', Timeout 1, ClickPill ''Referral'',
      Timeout 2])) = ''Referral''"
  proof -
  have p: "''Referral'' \<in> set [''Referral'']" by simp
  show "cf_active (convo_run [''Referral''] initConvoForm
     [ClickStart, Timeout 0, ClickStep1Next ''Design'', Timeout 1, ClickPill ''Referral'',
      Timeout 2]) = Some Step3"
    and "usable Step3 (convo_run [''Referral''] initConvoForm
     [ClickStart, Timeout 0, ClickStep1Next ''Design'', Timeout 1, ClickPill ''Referral'',
      Timeout 2])"
    and "a_work (answers (convo_run [''Referral''] initConvoForm
     [ClickStart, Timeout 0, ClickStep1Next ''Design'', Timeout 1, ClickPill ''Referral'',
      Timeout 2])) = ''Design''"
    and "a_source (answers (convo_run [''Referral''] initConvoForm
     [ClickStart, Timeout 0, ClickStep1Next ''Design'', Timeout 1, ClickPill ''Referral'',
      Timeout 2])) = ''Referral''"
    unfolding to_details[OF p] by (simp_all add: usable_def)
qed



text \<open>
  Claim C5.  For the run start, work "Design", source "Referral", name "Ana", email
  "ana@x.com" and an empty note (each answer given once the bot's question is out), the
  transcript is bot, user, bot, user, bot, user in the order of the steps, and exactly
  one link is handed over: to the fixed recipient, with the subject built from the
  name and the work type, and a body whose lines are the greeting, the name, the email,
  "Looking for: Design", "Found you via: Referral" and the closing line, with no
  "Note:" line.
\<close>

theorem transcript_causality:
  assumes "''Referral'' \<in> set pills"
  shows "(let s = convo_run pills initConvoForm
                 [ClickStart, Timeout 0, ClickStep1Next ''Design'', Timeout 1,
                  ClickPill ''Referral'', Timeout 2, Timeout 3,
                  ClickSend ''Ana'' ''ana@x.com'' [], Timeout 4]
          in transcript s =
               [(Bot, question_work), (User, ''Design''), (Bot, question_source),
                (User, ''Referral''), (Bot, prompt_details),
                (User, ''Ana '' @ emdash @ '' ana@x.com'')]
             \<and> alternating (map fst (transcript s))
             \<and> succeeded s
             \<and> cf_location s = [mailtoLink (answers s)]
             \<and> mailtoLink (answers s) =
                 ''mailto:'' @ recipient @ ''?subject='' @ encodeURIComponent (compose_subject (answers s))
                   @ ''&body='' @ encodeURIComponent (compose_body (answers s))
             \<and> recipient = ''azlanallahwala@gmail.com''
             \<and> compose_subject (answers s) = ''New inquiry from Ana '' @ emdash @ '' Design''
             \<and> lines_of (compose_body (answers s)) =
                 [''Hi Azlan,'', [], ''Name: Ana'', ''Email: ana@x.com'', ''Looking for: Design'',
                  ''Found you via: Referral'', [], ''Sent from your portfolio site.'']
             \<and> cf_location s =
                 [''mailto:azlanallahwala@gmail.com?subject=New%20inquiry%20from%20Ana%20%E2%80%94%20Design&body=Hi%20Azlan%2C%0A%0AName%3A%20Ana%0AEmail%3A%20ana%40x.com%0ALooking%20for%3A%20Design%0AFound%20you%20via%3A%20Referral%0A%0ASent%20from%20your%20portfolio%20site.''])"
proof -
  let ?s = "convo_run pills initConvoForm
                 [ClickStart, Timeout 0, ClickStep1Next ''Design'', Timeout 1,
                  ClickPill ''Referral'', Timeout 2, Timeout 3,
                  ClickSend ''Ana'' ''ana@x.com'' [], Timeout 4]"
  note s = to_success[OF assms]
  have a: "answers ?s = \<lparr>a_work = ''Design'', a_source = ''Referral'', a_name = ''Ana'',
               a_email = ''ana@x.com'', a_note = []\<rparr>"
    unfolding s by simp
  have f1: "transcript ?s =
               [(Bot, question_work), (User, ''Design''), (Bot, question_source),
                (User, ''Referral''), (Bot, prompt_details),
                (User, ''Ana '' @ emdash @ '' ana@x.com'')]"
    unfolding s by (simp add: transcript_def)
  have f2: "alternating (map fst (transcript ?s))" unfolding f1 by simp
  have f3: "succeeded ?s" unfolding s by (simp add: succeeded_def)
  have f4: "cf_location ?s = [mailtoLink (answers ?s)]" unfolding s by simp
  have f5: "mailtoLink (answers ?s) =
                 ''mailto:'' @ recipient @ ''?subject='' @ encodeURIComponent (compose_subject (answers ?s))
                   @ ''&body='' @ encodeURIComponent (compose_body (answers ?s))"
    by (rule mailtoLink_def)
  have f6: "recipient = ''azlanallahwala@gmail.com''" by (rule recipient_def)
  have f7: "compose_subject (answers ?s) = ''New inquiry from Ana '' @ emdash @ '' Design''"
    unfolding a by (rule example_message(1))
  have f8: "lines_of (compose_body (answers ?s)) =
                 [''Hi Azlan,'', [], ''Name: Ana'', ''Email: ana@x.com'', ''Looking for: Design'',
                  ''Found you via: Referral'', [], ''Sent from your portfolio site.'']"
    unfolding a by (rule example_message(2))
  have f9: "cf_location ?s =
                 [''mailto:azlanallahwala@gmail.com?subject=New%20inquiry%20from%20Ana%20%E2%80%94%20Design&body=Hi%20Azlan%2C%0A%0AName%3A%20Ana%0AEmail%3A%20ana%40x.com%0ALooking%20for%3A%20Design%0AFound%20you%20via%3A%20Referral%0A%0ASent%20from%20your%20portfolio%20site.'']"
    unfolding f4 a example_message(3) by (rule refl)
  show ?thesis unfolding Let_def by (intro conjI f1 f2 f3 f4 f5 f6 f7 f8 f9)
qed

theorem transcript_causality_witness:
  "''Referral'' \<in> set [''Search'', ''Referral'']
   \<and> map fst (transcript (convo_run [''Search'', ''Referral''] initConvoForm
                 [ClickStart, Timeout 0, ClickStep1Next ''Design'', Timeout 1,
                  ClickPill ''Referral'', Timeout 2, Timeout 3,
                  ClickSend ''Ana'' ''ana@x.com'' [], Timeout 4]))
       = [Bot, User, Bot, User, Bot, User]
   \<and> length (cf_location (convo_run [''Search'', ''Referral''] initConvoForm
                 [ClickStart, Timeout 0, ClickStep1Next ''Design'', Timeout 1,
                  ClickPill ''Referral'', Timeout 2, Timeout 3,
                  ClickSend ''Ana'' ''ana@x.com'' [], Timeout 4])) = 1"
proof -
  have p: "''Referral'' \<in> set [''Search'', ''Referral'']" by simp
  show ?thesis using transcript_causality[OF p] p unfolding Let_def by simp
qed

text \<open>
  Claim C8.  A submission whose trimmed name is empty, or whose trimmed email is empty
  or lacks \<open>@\<close>, changes nothing but the focus and the invalid marker of the offending
  field (the name if it is empty, else the email): step, answers, chat, timers and
  hand-over stay as they were, and so does the transcript.  The same holds after any
  number of failed submissions, and a valid submission is still accepted afterwards.
\<close>

theorem validation_failure_atomic:
  assumes "trim n = [] \<or> trim e = [] \<or> CHR ''@'' \<notin> set (trim e)"
    and "\<forall>(n', e', t') \<in> set tries. trim n' = [] \<or> trim e' = [] \<or> CHR ''@'' \<notin> set (trim e')"
  shows "sendBtn_click n e t s = flag (if trim n = [] then NameInput else EmailInput) s
       \<and> same_session s (sendBtn_click n e t s)
       \<and> transcript (sendBtn_click n e t s) = transcript s
       \<and> cf_focus (sendBtn_click n e t s) = Some (if trim n = [] then NameInput else EmailInput)
       \<and> (if trim n = [] then NameInput else EmailInput) \<in> cf_flagged (sendBtn_click n e t s)
       \<and> same_session s (convo_run pills s (map (\<lambda>(n', e', t'). ClickSend n' e' t') tries))
       \<and> (usable Step3 s \<and> trim n2 \<noteq> [] \<and> trim e2 \<noteq> [] \<and> CHR ''@'' \<in> set (trim e2) \<longrightarrow>
            succeeded (convo_step pills
              (convo_run pills s (map (\<lambda>(n', e', t'). ClickSend n' e' t') tries))
              (ClickSend n2 e2 t2)))"
proof -
  let ?f = "if trim n = [] then NameInput else EmailInput"
  let ?r = "convo_run pills s (map (\<lambda>(n', e', t'). ClickSend n' e' t') tries)"
  have eq: "sendBtn_click n e t s = flag ?f s" by (rule refused_is_flag[OF assms(1)])
  have a: "same_session s (sendBtn_click n e t s)" unfolding eq by simp
  have b: "transcript (sendBtn_click n e t s) = transcript s" unfolding eq by simp
  have c: "cf_focus (sendBtn_click n e t s) = Some ?f" unfolding eq by simp
  have d: "?f \<in> cf_flagged (sendBtn_click n e t s)" unfolding eq by simp
  have run: "same_session s ?r" by (rule refused_run[OF assms(2) same_session_refl])
  have retry: "usable Step3 s \<and> trim n2 \<noteq> [] \<and> trim e2 \<noteq> [] \<and> CHR ''@'' \<in> set (trim e2) \<longrightarrow>
        succeeded (convo_step pills ?r (ClickSend n2 e2 t2))"
  proof
    assume v: "usable Step3 s \<and> trim n2 \<noteq> [] \<and> trim e2 \<noteq> [] \<and> CHR ''@'' \<in> set (trim e2)"
    have "usable Step3 ?r" using run v by (simp add: usable_def same_session_def)
    then show "succeeded (convo_step pills ?r (ClickSend n2 e2 t2))"
      using v by (simp add: send_accepted succeeded_def)
  qed
  show ?thesis by (intro conjI eq a b c d run retry)
qed

theorem validation_failure_atomic_witness:
  "trim ''  '' = []
   \<and> same_session
        (convo_run [''Referral''] initConvoForm
          [ClickStart, Timeout 0, ClickStep1Next ''Design'', Timeout 1, ClickPill ''Referral'',
           Timeout 2])
        (sendBtn_click ''  '' ''a@b.com'' []
          (convo_run [''Referral''] initConvoForm
            [ClickStart, Timeout 0, ClickStep1Next ''Design'', Timeout 1,
             ClickPill ''Referral'', Timeout 2]))
   \<and> cf_focus (sendBtn_click ''  '' ''a@b.com'' []
          (convo_run [''Referral''] initConvoForm
            [ClickStart, Timeout 0, ClickStep1Next ''Design'', Timeout 1,
             ClickPill ''Referral'', Timeout 2])) = Some NameInput
   \<and> succeeded (convo_step [''Referral'']
          (convo_run [''Referral'']
            (convo_run [''Referral''] initConvoForm
              [ClickStart, Timeout 0, ClickStep1Next ''Design'', Timeout 1,
               ClickPill ''Referral'', Timeout 2])
            (map (\<lambda>(n', e', t'). ClickSend n' e' t') [([], ''x'', []), (''Bob'', ''bob'', [])]))
          (ClickSend ''Ana'' ''ana@x.com'' []))"
proof -
  let ?s = "convo_run [''Referral''] initConvoForm
          [ClickStart, Timeout 0, ClickStep1Next ''Design'', Timeout 1, ClickPill ''Referral'',
           Timeout 2]"
  have h1: "trim ''  '' = [] \<or> trim ''a@b.com'' = [] \<or> CHR ''@'' \<notin> set (trim ''a@b.com'')"
    by (simp add: trim_examples)
  have h2: "\<forall>(n', e', t') \<in> set [([], ''x'', []), (''Bob'', ''bob'', [])].
              trim n' = [] \<or> trim e' = [] \<or> CHR ''@'' \<notin> set (trim e')"
    by (simp add: trim_examples)
  have v: "usable Step3 ?s \<and> trim ''Ana'' \<noteq> [] \<and> trim ''ana@x.com'' \<noteq> []
           \<and> CHR ''@'' \<in> set (trim ''ana@x.com'')"
    by (intro conjI details_state_fields(2)) (simp_all add: trim_examples)
  note t = validation_failure_atomic[OF h1 h2, of "[]" ?s "[''Referral'']" "''Ana''" "''ana@x.com''" "[]"]
  have a: "same_session ?s (sendBtn_click ''  '' ''a@b.com'' [] ?s)" using t by blast
  have b: "cf_focus (sendBtn_click ''  '' ''a@b.com'' [] ?s) = Some NameInput"
    using t by (simp add: trim_examples)
  have c: "succeeded (convo_step [''Referral'']
          (convo_run [''Referral''] ?s
            (map (\<lambda>(n', e', t'). ClickSend n' e' t') [([], ''x'', []), (''Bob'', ''bob'', [])]))
          (ClickSend ''Ana'' ''ana@x.com'' []))"
    using t v by blast
  show ?thesis by (intro conjI a b c) (simp add: trim_examples)
qed

text \<open>
  Claim C10.  Name, email and note are trimmed before validation and commit.  A name
  made of white space only is refused exactly as the empty name is, and so is such an
  email.  When the submission is accepted, the committed answers are the trimmed values,
  the subject and the body are composed from them, and no trimmed value starts or ends
  with a white-space character.
\<close>

theorem submission_trimmed:
  assumes "set ws \<subseteq> set ws_tokens"
  shows "sendBtn_click (concat ws) e t s = sendBtn_click [] e t s
       \<and> sendBtn_click n (concat ws) t s = sendBtn_click n [] t s
       \<and> sendBtn_click (concat ws) e t s = flag NameInput s
       \<and> (trim n \<noteq> [] \<longrightarrow> sendBtn_click n (concat ws) t s = flag EmailInput s)
       \<and> (trim n \<noteq> [] \<and> trim e \<noteq> [] \<and> CHR ''@'' \<in> set (trim e) \<longrightarrow>
            answers (sendBtn_click n e t s)
              = (answers s)\<lparr>a_name := trim n, a_email := trim e, a_note := trim t\<rparr>
            \<and> cf_timers (sendBtn_click n e t s)
              = cf_timers s @
                  [(cf_nextId s, 400, AfterSend (mailtoLink (answers (sendBtn_click n e t s))))]
            \<and> compose_subject (answers (sendBtn_click n e t s))
              = ''New inquiry from '' @ trim n @ '' '' @ emdash @ '' '' @ a_work (answers s)
            \<and> compose_body (answers (sendBtn_click n e t s))
              = ''Hi Azlan,'' @ newline @ newline @
                ''Name: '' @ trim n @ newline @
                ''Email: '' @ trim e @ newline @
                ''Looking for: '' @ a_work (answers s) @ newline @
                ''Found you via: '' @ a_source (answers s) @ newline @
                (if trim t \<noteq> [] then ''Note: '' @ trim t @ newline else []) @
                newline @ ''Sent from your portfolio site.'')
       \<and> (\<forall>w\<in>set ws_tokens.
             \<not> prefix w (trim n) \<and> \<not> suffix w (trim n)
             \<and> \<not> prefix w (trim e) \<and> \<not> suffix w (trim e)
             \<and> \<not> prefix w (trim t) \<and> \<not> suffix w (trim t))"
proof -
  have b: "trim (concat ws) = []" by (rule trim_blank[OF assms])
  have a1: "sendBtn_click (concat ws) e t s = flag NameInput s"
    by (simp add: send_refused_name b)
  have a2: "sendBtn_click [] e t s = flag NameInput s"
    by (simp add: send_refused_name)
  have a3: "sendBtn_click n (concat ws) t s = sendBtn_click n [] t s"
    by (simp add: sendBtn_click_def b)
  have a4: "trim n \<noteq> [] \<longrightarrow> sendBtn_click n (concat ws) t s = flag EmailInput s"
    by (simp add: send_refused_email b)
  have c: "trim n \<noteq> [] \<and> trim e \<noteq> [] \<and> CHR ''@'' \<in> set (trim e) \<longrightarrow>
            answers (sendBtn_click n e t s)
              = (answers s)\<lparr>a_name := trim n, a_email := trim e, a_note := trim t\<rparr>
            \<and> cf_timers (sendBtn_click n e t s)
              = cf_timers s @
                  [(cf_nextId s, 400, AfterSend (mailtoLink (answers (sendBtn_click n e t s))))]
            \<and> compose_subject (answers (sendBtn_click n e t s))
              = ''New inquiry from '' @ trim n @ '' '' @ emdash @ '' '' @ a_work (answers s)
            \<and> compose_body (answers (sendBtn_click n e t s))
              = ''Hi Azlan,'' @ newline @ newline @
                ''Name: '' @ trim n @ newline @
                ''Email: '' @ trim e @ newline @
                ''Looking for: '' @ a_work (answers s) @ newline @
                ''Found you via: '' @ a_source (answers s) @ newline @
                (if trim t \<noteq> [] then ''Note: '' @ trim t @ newline else []) @
                newline @ ''Sent from your portfolio site.''"
    by (simp add: send_accepted compose_subject_def compose_body_def)
  have d: "\<forall>w\<in>set ws_tokens.
             \<not> prefix w (trim n) \<and> \<not> suffix w (trim n)
             \<and> \<not> prefix w (trim e) \<and> \<not> suffix w (trim e)
             \<and> \<not> prefix w (trim t) \<and> \<not> suffix w (trim t)"
    using trim_clean[of n] trim_clean[of e] trim_clean[of t] by blast
  have a0: "sendBtn_click (concat ws) e t s = sendBtn_click [] e t s"
    using a1 a2 by simp
  show ?thesis by (intro conjI a0 a3 a1 a4 c d)
qed

theorem submission_trimmed_witness:
  "set ['' '', [CHR 0x09], [CHR 0xC2, CHR 0xA0]] \<subseteq> set ws_tokens
   \<and> sendBtn_click (concat ['' '', [CHR 0x09], [CHR 0xC2, CHR 0xA0]]) ''ana@x.com'' []
         initConvoForm = flag NameInput initConvoForm
   \<and> a_name (answers (sendBtn_click '' Ana  '' ''ana@x.com'' [] initConvoForm)) = ''Ana''
   \<and> \<not> prefix '' '' (trim '' Ana  '') \<and> \<not> suffix '' '' (trim '' Ana  '')"
proof -
  have h: "set ['' '', [CHR 0x09], [CHR 0xC2, CHR 0xA0]] \<subseteq> set ws_tokens"
    by (simp add: ws_tokens_def)
  have v: "trim '' Ana  '' \<noteq> [] \<and> trim ''ana@x.com'' \<noteq> []
           \<and> CHR ''@'' \<in> set (trim ''ana@x.com'')"
    by (simp add: trim_examples)
  have sp: "'' '' \<in> set ws_tokens" by (simp add: ws_tokens_def)
  note t = submission_trimmed[OF h, of "''ana@x.com''" "[]" initConvoForm "'' Ana  ''"]
  have a: "sendBtn_click (concat ['' '', [CHR 0x09], [CHR 0xC2, CHR 0xA0]]) ''ana@x.com'' []
         initConvoForm = flag NameInput initConvoForm"
    using t by blast
  have "answers (sendBtn_click '' Ana  '' ''ana@x.com'' [] initConvoForm)
          = (answers initConvoForm)\<lparr>a_name := trim '' Ana  '', a_email := trim ''ana@x.com'',
               a_note := trim []\<rparr>"
    using t v by blast
  then have b: "a_name (answers (sendBtn_click '' Ana  '' ''ana@x.com'' [] initConvoForm)) = ''Ana''"
    by (simp add: trim_examples)
  have c: "\<not> prefix '' '' (trim '' Ana  '') \<and> \<not> suffix '' '' (trim '' Ana  '')"
    using t sp by blast
  show ?thesis by (intro conjI h a b) (use c in blast)+
qed

end
